theory Spec2Isabelle
  imports Complex_Main
begin

section \<open>Numbers and task nodes\<close>

text \<open>
  JavaScript numbers are modelled as reals: the trace timestamps are microsecond
  counts and the derived times are milliseconds; rounding of the IEEE doubles, NaN
  and the infinities are not part of the model.

  A \<open>TaskNode\<close> is a JavaScript object that is reached through several references
  (the flat \<open>tasks\<close> array, the \<open>children\<close> array of its parent and the \<open>parent\<close>
  field of its children), and clipping mutates it in place.  So the objects live
  in a store from addresses to nodes, and a reference is an address.
\<close>

type_synonym addr = nat

record trace_event =
  ts :: real
  dur :: "real option"
  pid :: nat
  tid :: nat

text \<open>
  An \<open>EventTimingEvent\<close> is a trace event with the interaction's data in
  \<open>args.data\<close>: offsets in milliseconds from the navigation start.  A \<open>{startTs, endTs}\<close>
  object is a window in trace time (microseconds).
\<close>

record interaction_data =
  timeStamp :: real
  processingStart :: real
  processingEnd :: real
  duration :: real
  type :: string

record event_timing_event = trace_event +
  args_data :: interaction_data

record time_window =
  startTs :: real
  endTs :: real

record phase_times =
  inputDelay :: time_window
  processingDelay :: time_window
  presentationDelay :: time_window

record task_node =
  event :: trace_event
  endEvent :: "trace_event option"
  children :: "addr list"
  parent :: "addr option"
  startTime :: real
  endTime :: real
  duration :: real
  selfTime :: real

type_synonym store = "addr \<Rightarrow> task_node option"

section \<open>work-during-interaction.js: clipping\<close>

text \<open>
  \<open>task.children.map(child => recursivelyClipTasks(child, task, startTs, endTs))\<close>:
  the callback runs on the children from left to right, each call seeing the
  store as the previous one left it, and the results are collected in order.
\<close>

fun map_children ::
  "(store \<Rightarrow> addr \<Rightarrow> (store \<times> real) option) \<Rightarrow> store \<Rightarrow> addr list \<Rightarrow> (store \<times> real list) option"
where
  "map_children f h [] = Some (h, [])"
| "map_children f h (c # cs) =
     (case f h c of
        None \<Rightarrow> None
      | Some (h1, d) \<Rightarrow>
          (case map_children f h1 cs of
             None \<Rightarrow> None
           | Some (h2, ds) \<Rightarrow> Some (h2, d # ds)))"

text \<open>
  \<open>task.endEvent?.ts ?? task.event.ts + Number(task.event.dur || 0)\<close>.
\<close>

definition taskEventEnd :: "task_node \<Rightarrow> real" where
  "taskEventEnd task =
     (case endEvent task of
        Some e \<Rightarrow> ts e
      | None \<Rightarrow> ts (event task) + (case dur (event task) of None \<Rightarrow> 0 | Some d \<Rightarrow> d))"

text \<open>
  \<open>recursivelyClipTasks(task, parent, startTs, endTs)\<close>.  The recursion follows the
  \<open>children\<close> references of the store, which need not be well founded, so the
  first argument bounds the depth of the calls: \<open>None\<close> is a run that does not
  return within that depth (or that follows a reference to no object, which no
  JavaScript heap has).  The second component of the result is the returned
  \<open>task.duration\<close>, read after the children have been clipped.
\<close>

fun recursivelyClipTasks ::
  "nat \<Rightarrow> store \<Rightarrow> addr \<Rightarrow> addr option \<Rightarrow> real \<Rightarrow> real \<Rightarrow> (store \<times> real) option"
where
  "recursivelyClipTasks 0 h task parentTask startTs' endTs' = None"
| "recursivelyClipTasks (Suc n) h task parentTask startTs' endTs' =
     (case h task of
        None \<Rightarrow> None
      | Some t \<Rightarrow>
          let taskEventStart = ts (event t);
              t1 = t\<lparr>startTime := max startTs' (min endTs' taskEventStart) / 1000\<rparr>;
              t2 = t1\<lparr>endTime := max startTs' (min endTs' (taskEventEnd t)) / 1000\<rparr>;
              t3 = t2\<lparr>duration := endTime t2 - startTime t2\<rparr>;
              h1 = h(task \<mapsto> t3)
          in (case map_children
                     (\<lambda>h' child. recursivelyClipTasks n h' child (Some task) startTs' endTs')
                     h1 (children t3) of
                None \<Rightarrow> None
              | Some (h2, ds) \<Rightarrow>
                  let childTime = foldl (\<lambda>sum child. sum + child) 0 ds in
                  (case h2 task of
                     None \<Rightarrow> None
                   | Some t4 \<Rightarrow>
                       let t5 = t4\<lparr>selfTime := duration t4 - childTime\<rparr>
                       in Some (h2(task \<mapsto> t5), duration t5))))"

text \<open>
  \<open>clipTasksByTs(tasks, startTs, endTs)\<close>: the loop over the flat array, skipping
  every task that has a parent.
\<close>

fun clipTasksByTs :: "nat \<Rightarrow> store \<Rightarrow> addr list \<Rightarrow> real \<Rightarrow> real \<Rightarrow> store option" where
  "clipTasksByTs n h [] startTs' endTs' = Some h"
| "clipTasksByTs n h (task # tasks) startTs' endTs' =
     (case h task of
        None \<Rightarrow> None
      | Some t \<Rightarrow>
          if parent t \<noteq> None then clipTasksByTs n h tasks startTs' endTs'
          else (case recursivelyClipTasks n h task None startTs' endTs' of
                  None \<Rightarrow> None
                | Some (h1, d) \<Rightarrow> clipTasksByTs n h1 tasks startTs' endTs'))"

section \<open>work-during-interaction.js: phases, breakdown table and audit\<close>

text \<open>
  \<open>getPhaseTimes(interactionEvent)\<close>.
\<close>

definition getPhaseTimes :: "event_timing_event \<Rightarrow> phase_times" where
  "getPhaseTimes interactionEvent =
     (let interactionData = args_data interactionEvent;
          startTs = ts interactionEvent;
          navStart = startTs - timeStamp interactionData * 1000;
          processingStartTs = navStart + processingStart interactionData * 1000;
          processingEndTs = navStart + processingEnd interactionData * 1000;
          endTs = startTs + interaction_data.duration interactionData * 1000
      in \<lparr>inputDelay = \<lparr>startTs = startTs, endTs = processingStartTs\<rparr>,
          processingDelay = \<lparr>startTs = processingStartTs, endTs = processingEndTs\<rparr>,
          presentationDelay = \<lparr>startTs = processingEndTs, endTs = endTs\<rparr>\<rparr>)"

text \<open>
  \<open>Object.entries(phases)\<close>: the three windows under their keys, in the order in
  which \<open>getPhaseTimes\<close> wrote them; and \<open>UIStrings[phaseName]\<close> for these keys (the
  localisation wrapper \<open>str_\<close> is left out: a label is its English text).
\<close>

definition phase_entries :: "phase_times \<Rightarrow> (string \<times> time_window) list" where
  "phase_entries phases =
     [(''inputDelay'', inputDelay phases),
      (''processingDelay'', processingDelay phases),
      (''presentationDelay'', presentationDelay phases)]"

definition UIStrings :: "string \<Rightarrow> string" where
  "UIStrings k =
     (if k = ''inputDelay'' then ''Input delay''
      else if k = ''processingDelay'' then ''Processing delay''
      else if k = ''presentationDelay'' then ''Presentation delay''
      else [])"

datatype error = TypeError | Error string
  | DependencyOrderError string string | DependencyPhaseError string string

text \<open>
  The rows of the table.  A \<open>result_row\<close> is an object pushed to \<open>results\<close>; a
  \<open>table_item\<close> is an object pushed to \<open>items\<close>, its \<open>subItems\<close> being the \<open>items\<close> of
  the \<open>{type: 'subitems', items: filteredResults}\<close> object.
\<close>

record result_row =
  url :: string
  total :: real
  scripting :: real
  layout :: real
  render :: real

record table_item =
  phase :: string
  total :: real
  subItems :: "result_row list"

record heading =
  key :: "string option"
  itemType :: string
  subItemsHeading_key :: string
  text_of :: string

record table_details =
  headings :: "heading list"
  items :: "table_item list"

text \<open>
  The constants of \<open>task-groups.js\<close> that the audit reads (the file is not part of
  the sources, so they are parameters), and the collaborators of the audit whose
  code is not part of the sources either: \<open>TraceProcessor.filteredTraceSort\<close>,
  \<open>MainThreadTasks.getMainThreadTasks\<close> (it allocates the task objects, so it
  returns a store with the array), \<open>getExecutionTimingsByURL\<close> (a \<open>Map\<close> from URL to
  an object from group id to milliseconds, in iteration order), the three
  computed artifacts that the audit awaits, and the threshold \<open>inpThresholds.p10\<close>.
  An awaited \<open>request\<close> either resolves to a value or rejects with an error (as
  the trace processor does on a trace with no navigation start); the responsiveness
  request resolves to \<open>null\<close> for a trace with no interaction event.
\<close>

record task_groups =
  scriptEvaluation_id :: string
  styleLayout_id :: string
  styleLayout_label :: string
  paintCompositeRender_id :: string
  paintCompositeRender_label :: string

record ('fr, 'nr, 'dl) collaborators =
  taskGroups :: task_groups
  filteredTraceSort :: "trace_event list \<Rightarrow> (trace_event \<Rightarrow> bool) \<Rightarrow> trace_event list"
  getMainThreadTasks :: "trace_event list \<Rightarrow> 'fr \<Rightarrow> real \<Rightarrow> store \<times> addr list"
  getExecutionTimingsByURL :: "store \<Rightarrow> addr list \<Rightarrow> 'nr \<Rightarrow> (string \<times> (string \<times> real) list) list"
  ComputedResponsivenes_request ::
    "trace_event list \<Rightarrow> string \<Rightarrow> error + event_timing_event option"
  NetworkRecords_request :: "'dl \<Rightarrow> error + 'nr"
  ProcessedTrace_request :: "trace_event list \<Rightarrow> error + 'fr"
  inpThresholds_p10 :: real

definition TASK_THRESHOLD :: real where
  "TASK_THRESHOLD = 1"

text \<open>
  \<open>Object.values(timingByGroupId).reduce((total, timespanMs) => total + timespanMs)\<close>:
  a \<open>reduce\<close> with no initial value throws a TypeError on no values.
\<close>

definition totalExecutionTime :: "(string \<times> real) list \<Rightarrow> error + real" where
  "totalExecutionTime timingByGroupId =
     (case map snd timingByGroupId of
        [] \<Rightarrow> Inl TypeError
      | v # vs \<Rightarrow> Inr (foldl (\<lambda>total timespanMs. total + timespanMs) v vs))"

text \<open>\<open>timingByGroupId[id] || 0\<close>.\<close>

definition timing_or_zero :: "(string \<times> real) list \<Rightarrow> string \<Rightarrow> real" where
  "timing_or_zero timingByGroupId gid =
     (case map_of timingByGroupId gid of None \<Rightarrow> 0 | Some v \<Rightarrow> v)"

text \<open>The loop that fills \<open>results\<close>, one row for each entry of \<open>executionTimings\<close>.\<close>

fun url_results :: "task_groups \<Rightarrow> (string \<times> (string \<times> real) list) list \<Rightarrow> error + result_row list"
where
  "url_results tg [] = Inr []"
| "url_results tg ((u, timingByGroupId) # rest) =
     (case totalExecutionTime timingByGroupId of
        Inl err \<Rightarrow> Inl err
      | Inr totalExecutionTimeForURL \<Rightarrow>
          let scriptingTotal = timing_or_zero timingByGroupId (scriptEvaluation_id tg);
              layoutTotal = timing_or_zero timingByGroupId (styleLayout_id tg);
              renderTotal = timing_or_zero timingByGroupId (paintCompositeRender_id tg);
              row = \<lparr>url = u, total = totalExecutionTimeForURL, scripting = scriptingTotal,
                      layout = layoutTotal, render = renderTotal\<rparr>
          in (case url_results tg rest of
                Inl err \<Rightarrow> Inl err
              | Inr rows \<Rightarrow> Inr (row # rows)))"

text \<open>
  \<open>Array.prototype.sort(compare)\<close>: a stable sort (ECMAScript 2019), here by
  insertion; an element goes before the first one that the comparison does not
  put before it.
\<close>

fun insert_by :: "('a \<Rightarrow> 'a \<Rightarrow> real) \<Rightarrow> 'a \<Rightarrow> 'a list \<Rightarrow> 'a list" where
  "insert_by compare x [] = [x]"
| "insert_by compare x (y # ys) =
     (if compare x y \<le> 0 then x # y # ys else y # insert_by compare x ys)"

definition sort_by :: "('a \<Rightarrow> 'a \<Rightarrow> real) \<Rightarrow> 'a list \<Rightarrow> 'a list" where
  "sort_by compare xs = foldr (insert_by compare) xs []"

text \<open>
  \<open>results.filter(result => result.total > TASK_THRESHOLD).sort((a, b) => b.total - a.total)\<close>.
\<close>

definition filteredResults :: "result_row list \<Rightarrow> result_row list" where
  "filteredResults results =
     sort_by (\<lambda>a b. result_row.total b - result_row.total a)
       (filter (\<lambda>result. result_row.total result > TASK_THRESHOLD) results)"

text \<open>
  The loop over the phases: clip the tasks to the phase (in place, so the store is
  threaded through), read the timings, build the item.  \<open>None\<close> is a clip that does
  not return within the depth bound.
\<close>

fun phase_items ::
  "('fr, 'nr, 'dl) collaborators \<Rightarrow> nat \<Rightarrow> store \<Rightarrow> addr list \<Rightarrow> 'nr
     \<Rightarrow> (string \<times> time_window) list \<Rightarrow> (error + table_item list) option"
where
  "phase_items C n h threadTasks networkRecords [] = Some (Inr [])"
| "phase_items C n h threadTasks networkRecords ((phaseName, phaseTimes) # rest) =
     (case clipTasksByTs n h threadTasks (startTs phaseTimes) (endTs phaseTimes) of
        None \<Rightarrow> None
      | Some h1 \<Rightarrow>
          let executionTimings = getExecutionTimingsByURL C h1 threadTasks networkRecords in
          (case url_results (taskGroups C) executionTimings of
             Inl err \<Rightarrow> Some (Inl err)
           | Inr results \<Rightarrow>
               let item = \<lparr>phase = UIStrings phaseName,
                            total = (endTs phaseTimes - startTs phaseTimes) / 1000,
                            subItems = filteredResults results\<rparr>
               in (case phase_items C n h1 threadTasks networkRecords rest of
                     None \<Rightarrow> None
                   | Some (Inl err) \<Rightarrow> Some (Inl err)
                   | Some (Inr its) \<Rightarrow> Some (Inr (item # its)))))"

definition table_headings :: "task_groups \<Rightarrow> heading list" where
  "table_headings tg =
     [\<lparr>key = Some ''phase'', itemType = ''text'', subItemsHeading_key = ''url'', text_of = ''Phase''\<rparr>,
      \<lparr>key = Some ''total'', itemType = ''ms'', subItemsHeading_key = ''total'',
         text_of = ''Total time''\<rparr>,
      \<lparr>key = None, itemType = ''ms'', subItemsHeading_key = ''scripting'',
         text_of = ''Script evaluation''\<rparr>,
      \<lparr>key = None, itemType = ''ms'', subItemsHeading_key = ''layout'',
         text_of = styleLayout_label tg\<rparr>,
      \<lparr>key = None, itemType = ''ms'', subItemsHeading_key = ''render'',
         text_of = paintCompositeRender_label tg\<rparr>]"

text \<open>
  \<open>eventThreadBreakdown(interactionEvent, trace, processedTrace, networkRecords)\<close>;
  \<open>trace\<close> is its \<open>traceEvents\<close> and \<open>processedTrace\<close> its \<open>frames\<close>.
  \<open>Audit.makeTableDetails(headings, items)\<close> is the table of these headings and items.
\<close>

definition eventThreadBreakdown ::
  "('fr, 'nr, 'dl) collaborators \<Rightarrow> nat \<Rightarrow> event_timing_event \<Rightarrow> trace_event list \<Rightarrow> 'fr \<Rightarrow> 'nr
     \<Rightarrow> (error + table_details \<times> phase_times) option"
where
  "eventThreadBreakdown C n interactionEvent traceEvents frames networkRecords =
     (let threadEvents = filteredTraceSort C traceEvents
            (\<lambda>evt. pid evt = pid interactionEvent \<and> tid evt = tid interactionEvent);
          traceEndTs = foldl (\<lambda>endTs evt.
              max (ts evt + (case dur evt of None \<Rightarrow> 0 | Some d \<Rightarrow> d)) endTs) 0 threadEvents;
          (h, threadTasks) = getMainThreadTasks C threadEvents frames traceEndTs;
          phases = getPhaseTimes interactionEvent
      in (case phase_items C n h threadTasks networkRecords (phase_entries phases) of
            None \<Rightarrow> None
          | Some (Inl err) \<Rightarrow> Some (Inl err)
          | Some (Inr its) \<Rightarrow>
              Some (Inr (\<lparr>headings = table_headings (taskGroups C), items = its\<rparr>, phases))))"




record 'dl artifacts =
  traces_defaultPass :: "trace_event list"
  devtoolsLogs_defaultPass :: "'dl"



section \<open>fraggle-rock/config/config.js: artifact definitions\<close>

text \<open>
  A dependency symbol is a JavaScript \<open>Symbol\<close>: an opaque token compared by
  identity.  Of a gatherer definition the resolver reads \<open>instance.name\<close> and, in
  \<open>instance.meta\<close>, the optional \<open>symbol\<close> and the optional \<open>dependencies\<close>, an object
  from dependency name to symbol, here the list of its \<open>Object.entries\<close>;
  \<open>supportedModes\<close> is what the phase check looks at.
\<close>

type_synonym symbol = nat

record gatherer_defn =
  instance_name :: string
  meta_supportedModes :: "string list"
  meta_symbol :: "symbol option"
  meta_dependencies :: "(string \<times> symbol) list option"

record 'gj artifact_json =
  id' :: string
  gatherer :: 'gj

record artifact_defn =
  id' :: string
  gatherer :: gatherer_defn
  dependencies :: "(string \<times> string) list option"

text \<open>
  The helpers of \<open>config-helpers.js\<close> and \<open>validation.js\<close> that the resolver calls
  and whose code is not part of the sources: \<open>resolveGathererToDefn\<close> (with the list
  of core gatherers and the config directory; it may throw) and the two
  predicates.
\<close>

record 'gj config_helpers =
  resolveGathererToDefn :: "'gj \<Rightarrow> string option \<Rightarrow> error + gatherer_defn"
  isFRGathererDefn :: "gatherer_defn \<Rightarrow> bool"
  isValidArtifactDependency :: "gatherer_defn \<Rightarrow> gatherer_defn \<Rightarrow> bool"

text \<open>
  Modelled from the spec: \<open>throwInvalidDependencyOrder\<close> and
  \<open>throwInvalidArtifactDependency\<close> of \<open>validation.js\<close>, which is not part of the
  sources.  By the spec an absent dependency fails with
  \<open>DependencyOrderError(artifactId, dependencyName)\<close> and an incompatible phase with
  \<open>DependencyPhaseError(artifactId, dependencyName)\<close>.
\<close>

definition throwInvalidDependencyOrder :: "string \<Rightarrow> string \<Rightarrow> error" where
  "throwInvalidDependencyOrder artifactId dependencyName =
     DependencyOrderError artifactId dependencyName"

definition throwInvalidArtifactDependency :: "string \<Rightarrow> string \<Rightarrow> error" where
  "throwInvalidArtifactDependency artifactId dependencyName =
     DependencyPhaseError artifactId dependencyName"

text \<open>
  The callback of the \<open>map\<close> over the entries of \<open>gatherer.instance.meta.dependencies\<close>
  in \<open>resolveArtifactDependencies\<close>, run on the entries from left to right; the
  first throw ends the run.
\<close>

fun resolve_entries ::
  "'gj config_helpers \<Rightarrow> string \<Rightarrow> gatherer_defn \<Rightarrow> (symbol \<Rightarrow> artifact_defn option)
     \<Rightarrow> (string \<times> symbol) list \<Rightarrow> error + (string \<times> string) list"
where
  "resolve_entries H artifactId gath artifactDefnsBySymbol [] = Inr []"
| "resolve_entries H artifactId gath artifactDefnsBySymbol ((dependencyName, artifactSymbol) # rest) =
     (case artifactDefnsBySymbol artifactSymbol of
        None \<Rightarrow> Inl (throwInvalidDependencyOrder artifactId dependencyName)
      | Some dependency \<Rightarrow>
          if \<not> isValidArtifactDependency H gath (artifact_defn.gatherer dependency)
          then Inl (throwInvalidArtifactDependency artifactId dependencyName)
          else (case resolve_entries H artifactId gath artifactDefnsBySymbol rest of
                  Inl err \<Rightarrow> Inl err
                | Inr entries \<Rightarrow> Inr ((dependencyName, artifact_defn.id' dependency) # entries)))"

text \<open>
  \<open>resolveArtifactDependencies(artifact, gatherer, artifactDefnsBySymbol)\<close>:
  \<open>undefined\<close> when the meta object has no \<open>dependencies\<close>.
\<close>

definition resolveArtifactDependencies ::
  "'gj config_helpers \<Rightarrow> 'gj artifact_json \<Rightarrow> gatherer_defn \<Rightarrow> (symbol \<Rightarrow> artifact_defn option)
     \<Rightarrow> error + (string \<times> string) list option"
where
  "resolveArtifactDependencies H artifact gath artifactDefnsBySymbol =
     (case meta_dependencies gath of
        None \<Rightarrow> Inr None
      | Some entries \<Rightarrow>
          (case resolve_entries H (artifact_json.id' artifact) gath artifactDefnsBySymbol entries of
             Inl err \<Rightarrow> Inl err
           | Inr deps \<Rightarrow> Inr (Some deps)))"

text \<open>
  The callback of \<open>artifacts.map\<close> in \<open>resolveArtifactsToDefns\<close>: it returns the
  definition and the \<open>artifactDefnsBySymbol\<close> map as it leaves it
  (\<open>Map.prototype.set\<close> replaces the value of a key that is present).
\<close>

definition resolve_artifact ::
  "'gj config_helpers \<Rightarrow> string option \<Rightarrow> (symbol \<Rightarrow> artifact_defn option) \<Rightarrow> 'gj artifact_json
     \<Rightarrow> error + artifact_defn \<times> (symbol \<Rightarrow> artifact_defn option)"
where
  "resolve_artifact H configDir artifactDefnsBySymbol artifactJson =
     (let gathererJson = artifact_json.gatherer artifactJson in
      case resolveGathererToDefn H gathererJson configDir of
        Inl err \<Rightarrow> Inl err
      | Inr gath \<Rightarrow>
          if \<not> isFRGathererDefn H gath
          then Inl (Error (instance_name gath @ '' gatherer does not have a Fraggle Rock meta obj''))
          else (case resolveArtifactDependencies H artifactJson gath artifactDefnsBySymbol of
                  Inl err \<Rightarrow> Inl err
                | Inr deps \<Rightarrow>
                    let artifact = \<lparr>id' = artifact_json.id' artifactJson, gatherer = gath,
                                    dependencies = deps\<rparr>
                    in (case meta_symbol (artifact_defn.gatherer artifact) of
                          None \<Rightarrow> Inr (artifact, artifactDefnsBySymbol)
                        | Some symbol \<Rightarrow> Inr (artifact, artifactDefnsBySymbol(symbol \<mapsto> artifact)))))"

text \<open>The \<open>map\<close> over the declarations, in input order; the first throw ends it.\<close>

fun resolve_artifacts ::
  "'gj config_helpers \<Rightarrow> string option \<Rightarrow> (symbol \<Rightarrow> artifact_defn option) \<Rightarrow> 'gj artifact_json list
     \<Rightarrow> error + artifact_defn list \<times> (symbol \<Rightarrow> artifact_defn option)"
where
  "resolve_artifacts H configDir artifactDefnsBySymbol [] = Inr ([], artifactDefnsBySymbol)"
| "resolve_artifacts H configDir artifactDefnsBySymbol (artifactJson # rest) =
     (case resolve_artifact H configDir artifactDefnsBySymbol artifactJson of
        Inl err \<Rightarrow> Inl err
      | Inr (artifact, m1) \<Rightarrow>
          (case resolve_artifacts H configDir m1 rest of
             Inl err \<Rightarrow> Inl err
           | Inr (defns, m2) \<Rightarrow> Inr (artifact # defns, m2)))"

text \<open>
  \<open>resolveArtifactsToDefns(artifacts, configDir)\<close>: \<open>null\<close> for no artifacts array,
  and otherwise the definitions, with a fresh map.  The two calls of the logger
  are left out.
\<close>

definition resolveArtifactsToDefns ::
  "'gj config_helpers \<Rightarrow> 'gj artifact_json list option \<Rightarrow> string option
     \<Rightarrow> error + artifact_defn list option"
where
  "resolveArtifactsToDefns H artifacts configDir =
     (case artifacts of
        None \<Rightarrow> Inr None
      | Some declarations \<Rightarrow>
          (case resolve_artifacts H configDir Map.empty declarations of
             Inl err \<Rightarrow> Inl err
           | Inr (artifactDefns, m) \<Rightarrow> Inr (Some artifactDefns)))"

section \<open>The computed-artifact cache\<close>

text \<open>
  Modelled from the spec: the computed-artifact cache (\<open>computed-artifact.js\<close> is
  not part of the sources; the audit only calls \<open>request\<close> on computed artifacts).
  By the spec a \<open>ComputationKey\<close> is a computation kind with the fingerprint of the
  inputs; a \<open>CachedComputation\<close> holds either a pending handle or a completed result
  for a key; and \<open>request(kind, inputs, computeFn)\<close> runs \<open>computeFn\<close> at most once for
  a key and shares the pending unit of work with every later requester.  A cache
  counts the executions of \<open>computeFn\<close> that it has started for each key, and
  accesses to it are serialised: a run of the cache is a sequence of requests and
  of completions of pending computations, in any interleaving.  A request returns
  the handle of the unit of work that it waits for; \<open>observed\<close> is the result that
  the waiters of a key have received.
\<close>

type_synonym computation_key = "string \<times> nat"

datatype 'r cached_computation = Pending nat | Completed nat 'r

record 'r computed_cache =
  cache_entries :: "computation_key \<Rightarrow> 'r cached_computation option"
  executions :: "computation_key \<Rightarrow> nat"
  next_handle :: nat

definition empty_cache :: "'r computed_cache" where
  "empty_cache = \<lparr>cache_entries = Map.empty, executions = (\<lambda>k. 0), next_handle = 0\<rparr>"

fun handle_of :: "'r cached_computation \<Rightarrow> nat" where
  "handle_of (Pending h) = h"
| "handle_of (Completed h r) = h"

definition request ::
  "('i \<Rightarrow> nat) \<Rightarrow> 'r computed_cache \<Rightarrow> string \<Rightarrow> 'i \<Rightarrow> 'r computed_cache \<times> nat" where
  "request fingerprint c kind inputs =
     (let k = (kind, fingerprint inputs) in
      case cache_entries c k of
        Some e \<Rightarrow> (c, handle_of e)
      | None \<Rightarrow>
          (c\<lparr>cache_entries := (cache_entries c)(k \<mapsto> Pending (next_handle c)),
             executions := (executions c)(k := executions c k + 1),
             next_handle := next_handle c + 1\<rparr>,
           next_handle c))"

definition complete :: "'r computed_cache \<Rightarrow> computation_key \<Rightarrow> 'r \<Rightarrow> 'r computed_cache" where
  "complete c k r =
     (case cache_entries c k of
        Some (Pending h) \<Rightarrow> c\<lparr>cache_entries := (cache_entries c)(k \<mapsto> Completed h r)\<rparr>
      | _ \<Rightarrow> c)"

datatype ('i, 'r) cache_event = Request string 'i | Finish computation_key 'r

fun cache_step ::
  "('i \<Rightarrow> nat) \<Rightarrow> 'r computed_cache \<times> (computation_key \<times> nat) list \<Rightarrow> ('i, 'r) cache_event
     \<Rightarrow> 'r computed_cache \<times> (computation_key \<times> nat) list" where
  "cache_step fingerprint (c, handed) (Request kind inputs) =
     (let (c', h) = request fingerprint c kind inputs
      in (c', handed @ [((kind, fingerprint inputs), h)]))"
| "cache_step fingerprint (c, handed) (Finish k r) = (complete c k r, handed)"

definition cache_run ::
  "('i \<Rightarrow> nat) \<Rightarrow> ('i, 'r) cache_event list \<Rightarrow> 'r computed_cache \<times> (computation_key \<times> nat) list" where
  "cache_run fingerprint evs = foldl (cache_step fingerprint) (empty_cache, []) evs"

definition observed :: "'r computed_cache \<Rightarrow> computation_key \<Rightarrow> 'r option" where
  "observed c k = (case cache_entries c k of Some (Completed h r) \<Rightarrow> Some r | _ \<Rightarrow> None)"

text \<open>
  Vocabulary for the cache's claim: the handle of a key's unit of work, the
  invariant of a run, and a run with three requests of one key.
\<close>

definition handle_at :: "'r computed_cache \<Rightarrow> computation_key \<Rightarrow> nat option" where
  "handle_at c k = map_option handle_of (cache_entries c k)"

definition counted :: "'r computed_cache \<Rightarrow> bool" where
  "counted c = (\<forall>k. executions c k = (if cache_entries c k = None then 0 else 1))"

definition cache_inv :: "'r computed_cache \<times> (computation_key \<times> nat) list \<Rightarrow> bool" where
  "cache_inv s = (counted (fst s) \<and> (\<forall>(k, h)\<in>set (snd s). handle_at (fst s) k = Some h))"

definition ex_events :: "(nat, nat) cache_event list" where
  "ex_events = [Request ''Responsiveness'' 7, Request ''ProcessedTrace'' 3,
                Request ''Responsiveness'' 7, Finish (''Responsiveness'', 7) 42,
                Request ''Responsiveness'' 7]"

section \<open>Vocabulary for the clipping properties\<close>

text \<open>
  The part of a node that clipping is meant to leave alone: the node with its four
  derived fields blanked.  Two stores have the same shape when they hold the same
  objects up to the derived fields.
\<close>

definition shape :: "task_node \<Rightarrow> task_node" where
  "shape t = t\<lparr>startTime := 0, endTime := 0, duration := 0, selfTime := 0\<rparr>"

definition same_shape :: "store \<Rightarrow> store \<Rightarrow> bool" where
  "same_shape h g = (\<forall>x. map_option shape (h x) = map_option shape (g x))"

text \<open>
  What one clip writes into a node, as a function of the node's own event record,
  its children's event records and the window.
\<close>

definition clippedStart :: "real \<Rightarrow> real \<Rightarrow> task_node \<Rightarrow> real" where
  "clippedStart s e t = max s (min e (ts (event t))) / 1000"

definition clippedEnd :: "real \<Rightarrow> real \<Rightarrow> task_node \<Rightarrow> real" where
  "clippedEnd s e t = max s (min e (taskEventEnd t)) / 1000"

definition clippedDuration :: "real \<Rightarrow> real \<Rightarrow> task_node \<Rightarrow> real" where
  "clippedDuration s e t = clippedEnd s e t - clippedStart s e t"

definition childDuration :: "store \<Rightarrow> real \<Rightarrow> real \<Rightarrow> addr \<Rightarrow> real" where
  "childDuration h s e c = (case h c of None \<Rightarrow> 0 | Some t \<Rightarrow> clippedDuration s e t)"

definition clipNode :: "store \<Rightarrow> real \<Rightarrow> real \<Rightarrow> task_node \<Rightarrow> task_node" where
  "clipNode h s e t =
     t\<lparr>startTime := clippedStart s e t, endTime := clippedEnd s e t,
       duration := clippedDuration s e t,
       selfTime := clippedDuration s e t - foldl (+) 0 (map (childDuration h s e) (children t))\<rparr>"

text \<open>
  The nodes below \<open>a\<close> (with \<open>a\<close>) along the \<open>children\<close> references, and the forest
  of a \<open>tasks\<close> array: everything below one of its entries that has no parent.
\<close>

inductive_set reach :: "store \<Rightarrow> addr \<Rightarrow> addr set" for h :: store and a :: addr where
  reach_self: "a \<in> reach h a"
| reach_child: "x \<in> reach h a \<Longrightarrow> h x = Some t \<Longrightarrow> c \<in> set (children t) \<Longrightarrow> c \<in> reach h a"

text \<open>
  \<open>clip_over h s e R g\<close> is the store \<open>g\<close> with the nodes of \<open>R\<close> clipped to the window.
\<close>

definition clip_over :: "store \<Rightarrow> real \<Rightarrow> real \<Rightarrow> addr set \<Rightarrow> store \<Rightarrow> store" where
  "clip_over h s e R g = (\<lambda>x. if x \<in> R then map_option (clipNode h s e) (h x) else g x)"

definition forest_nodes :: "store \<Rightarrow> addr list \<Rightarrow> addr set" where
  "forest_nodes h tasks =
     (\<Union>a\<in>{a \<in> set tasks. \<exists>t. h a = Some t \<and> parent t = None}. reach h a)"

text \<open>
  A well-formed arena: every listed address holds a node, the children of a listed
  node are listed, and a rank decreases from a node to its children (so the
  \<open>children\<close> references have no cycle).  The array that \<open>getMainThreadTasks\<close>
  returns lists every node of its forest.
\<close>

definition well_formed :: "store \<Rightarrow> (addr \<Rightarrow> nat) \<Rightarrow> addr list \<Rightarrow> bool" where
  "well_formed h rk tasks =
     (\<forall>a\<in>set tasks. case h a of None \<Rightarrow> False
        | Some t \<Rightarrow> (\<forall>c\<in>set (children t). c \<in> set tasks \<and> rk c < rk a))"

text \<open>
  The parent links agree with the children references: a listed node with a parent
  is among the children of that parent, which is listed too.
\<close>

definition parents_linked :: "store \<Rightarrow> addr list \<Rightarrow> bool" where
  "parents_linked h tasks =
     (\<forall>a\<in>set tasks. case h a of None \<Rightarrow> False
        | Some t \<Rightarrow> (case parent t of None \<Rightarrow> True
            | Some p \<Rightarrow> p \<in> set tasks \<and>
                (case h p of None \<Rightarrow> False | Some tp \<Rightarrow> a \<in> set (children tp))))"

text \<open>
  A small forest: a root task of 100 ms (a complete event with a \<open>dur\<close>) and one
  child of 40 ms inside it (a begin/end pair), with the times a fresh build gives.
\<close>

definition ex_root :: task_node where
  "ex_root = \<lparr>event = \<lparr>ts = 0, dur = Some 100000, pid = 1, tid = 1\<rparr>, endEvent = None, children = [1],
     parent = None, startTime = 0, endTime = 100, duration = 100, selfTime = 60\<rparr>"

definition ex_child :: task_node where
  "ex_child = \<lparr>event = \<lparr>ts = 20000, dur = None, pid = 1, tid = 1\<rparr>, endEvent = Some \<lparr>ts = 60000, dur = None, pid = 1, tid = 1\<rparr>,
     children = [], parent = Some 0, startTime = 20, endTime = 60, duration = 40, selfTime = 40\<rparr>"

definition ex_store :: store where
  "ex_store = [0 \<mapsto> ex_root, 1 \<mapsto> ex_child]"

definition ex_rank :: "addr \<Rightarrow> nat" where
  "ex_rank a = (if a = 0 then 1 else 0)"

section \<open>Vocabulary for the breakdown and the audit\<close>

text \<open>The length of a window, and the comparison of the sort.\<close>

definition window_length :: "time_window \<Rightarrow> real" where
  "window_length w = endTs w - startTs w"

abbreviation by_total_desc :: "result_row \<Rightarrow> result_row \<Rightarrow> real" where
  "by_total_desc \<equiv> (\<lambda>a b. result_row.total b - result_row.total a)"

text \<open>
  What the properties of a whole run assume of the collaborators: every forest
  that \<open>getMainThreadTasks\<close> returns is a well-formed arena of rank below the depth
  bound, and \<open>getExecutionTimingsByURL\<close> lists no URL without a timing.
\<close>

definition tasks_well_formed ::
  "('fr, 'nr, 'dl) collaborators \<Rightarrow> (addr \<Rightarrow> nat) \<Rightarrow> nat \<Rightarrow> bool" where
  "tasks_well_formed C rk n =
     (\<forall>evs frames e. case getMainThreadTasks C evs frames e of
        (h, threadTasks) \<Rightarrow> well_formed h rk threadTasks \<and> (\<forall>a\<in>set threadTasks. rk a < n))"

definition timings_nonempty :: "('fr, 'nr, 'dl) collaborators \<Rightarrow> bool" where
  "timings_nonempty C =
     (\<forall>h tasks records. \<forall>(u, timingByGroupId)\<in>set (getExecutionTimingsByURL C h tasks records).
        timingByGroupId \<noteq> [])"

text \<open>
  An interaction of 368 ms that starts 10 ms into the trace, the group
  ids of \<open>task-groups.js\<close>, some timings with ties, and collaborators for the small
  forest: the only URL is charged the self time of every task; the requests on a
  trace reject on an empty trace, and the interaction is found when the trace has
  an event at or after its timestamp.
\<close>

definition ex_interaction :: event_timing_event where
  "ex_interaction = \<lparr>ts = 10000, dur = None, pid = 1, tid = 1,
     args_data = \<lparr>timeStamp = 0, processingStart = 5, processingEnd = 46, duration = 368,
                  type = ''mousedown''\<rparr>\<rparr>"

definition ex_groups :: task_groups where
  "ex_groups = \<lparr>scriptEvaluation_id = ''scriptEvaluation'', styleLayout_id = ''styleLayout'',
     styleLayout_label = ''Style & Layout'', paintCompositeRender_id = ''paintCompositeRender'',
     paintCompositeRender_label = ''Rendering''\<rparr>"

definition ex_timings :: "(string \<times> (string \<times> real) list) list" where
  "ex_timings = [(''b'', [(''scriptEvaluation'', 4), (''other'', 1)]),
                 (''d'', [(''other'', 1)]),
                 (''a'', [(''styleLayout'', 5)]),
                 (''e'', [(''other'', 7)]),
                 (''c'', [(''other'', 5)])]"

definition ex_collaborators :: "(unit, unit, unit) collaborators" where
  "ex_collaborators =
     \<lparr>taskGroups = ex_groups,
      filteredTraceSort = (\<lambda>evs keep. filter keep evs),
      getMainThreadTasks = (\<lambda>evs frames traceEnd. (ex_store, [0, 1])),
      getExecutionTimingsByURL = (\<lambda>h tasks records.
        [(''http://localhost:10200/events.html'',
          [(''scriptEvaluation'',
            sum_list (map (\<lambda>a. case h a of None \<Rightarrow> 0 | Some t \<Rightarrow> selfTime t) tasks))])]),
      ComputedResponsivenes_request = (\<lambda>evs method.
        if evs = [] then Inl (Error ''NO_TRACING_STARTED'')
        else if list_ex (\<lambda>evt. ts ex_interaction \<le> ts evt) evs then Inr (Some ex_interaction)
        else Inr None),
      NetworkRecords_request = (\<lambda>devtoolsLog. Inr ()),
      ProcessedTrace_request = (\<lambda>evs. if evs = [] then Inl (Error ''NO_TRACING_STARTED'') else Inr ()),
      inpThresholds_p10 = 200\<rparr>"


section \<open>Vocabulary for the resolver\<close>

text \<open>
  A declaration \<open>{id, gatherer}\<close>; helpers for examples, in which a gatherer is named
  by its definition, a gatherer with any supported mode has a meta object, and a
  dependency is valid when it supports every mode of its dependent; and four
  gatherers: two that declare a symbol and two that depend on them.
\<close>

definition decl :: "string \<Rightarrow> 'gj \<Rightarrow> 'gj artifact_json" where
  "decl artifactId gathererJson =
     \<lparr>artifact_json.id' = artifactId, artifact_json.gatherer = gathererJson\<rparr>"

definition ex_helpers :: "gatherer_defn config_helpers" where
  "ex_helpers =
     \<lparr>resolveGathererToDefn = (\<lambda>gathererJson configDir. Inr gathererJson),
      isFRGathererDefn = (\<lambda>g. meta_supportedModes g \<noteq> []),
      isValidArtifactDependency = (\<lambda>dependent dependency.
        set (meta_supportedModes dependent) \<subseteq> set (meta_supportedModes dependency))\<rparr>"

definition gatherer_A :: gatherer_defn where
  "gatherer_A = \<lparr>instance_name = ''DevtoolsLog'', meta_supportedModes = [''timespan'', ''navigation''],
     meta_symbol = Some 1, meta_dependencies = None\<rparr>"

definition gatherer_T :: gatherer_defn where
  "gatherer_T = \<lparr>instance_name = ''Trace'', meta_supportedModes = [''timespan'', ''navigation''],
     meta_symbol = Some 2, meta_dependencies = None\<rparr>"

definition gatherer_B :: gatherer_defn where
  "gatherer_B = \<lparr>instance_name = ''TraceElements'', meta_supportedModes = [''timespan'', ''navigation''],
     meta_symbol = None, meta_dependencies = Some [(''DevtoolsLog'', 1), (''Trace'', 2)]\<rparr>"

definition gatherer_N :: gatherer_defn where
  "gatherer_N = \<lparr>instance_name = ''NetworkUserAgent'', meta_supportedModes = [''timespan'', ''navigation''],
     meta_symbol = None, meta_dependencies = Some [(''DevtoolsLog'', 1)]\<rparr>"

definition defn_A :: artifact_defn where
  "defn_A = \<lparr>id' = ''A'', gatherer = gatherer_A, dependencies = None\<rparr>"

section \<open>Clipping: what a run writes, and that it returns\<close>

lemma shape_fields:
  "shape t = shape t' \<Longrightarrow> event t = event t' \<and> endEvent t = endEvent t' \<and> children t = children t' \<and> parent t = parent t'"
proof -
  assume eq: "shape t = shape t'"
  have "event (shape t) = event (shape t')" "endEvent (shape t) = endEvent (shape t')"
    "children (shape t) = children (shape t')" "parent (shape t) = parent (shape t')"
    by (simp_all add: eq)
  then show ?thesis by (simp add: shape_def)
qed

lemma upd_shape:
  "t\<lparr>startTime := a, endTime := b, duration := c, selfTime := d\<rparr>
   = (shape t)\<lparr>startTime := a, endTime := b, duration := c, selfTime := d\<rparr>"
  by (simp add: shape_def)

lemma shape_clipNode [simp]: "shape (clipNode h s e t) = shape t"
  by (simp add: shape_def clipNode_def)

lemma same_shape_refl [simp]: "same_shape h h"
  by (simp add: same_shape_def)

lemma same_shape_sym: "same_shape h g \<Longrightarrow> same_shape g h"
  by (simp add: same_shape_def)

lemma same_shape_trans: "same_shape h g \<Longrightarrow> same_shape g k \<Longrightarrow> same_shape h k"
  by (simp add: same_shape_def)

lemma clipped_shape:
  assumes "shape t = shape t'"
  shows "clippedStart s e t = clippedStart s e t'" "clippedEnd s e t = clippedEnd s e t'"
    "clippedDuration s e t = clippedDuration s e t'"
  using shape_fields [OF assms]
  by (simp_all add: clippedStart_def clippedEnd_def clippedDuration_def taskEventEnd_def
        split: option.split)

lemma childDuration_shape:
  assumes "same_shape h g"
  shows "childDuration g s e c = childDuration h s e c"
proof -
  have eq: "map_option shape (h c) = map_option shape (g c)"
    using assms by (simp add: same_shape_def)
  show ?thesis
  proof (cases "h c")
    case None
    then show ?thesis using eq by (simp add: childDuration_def)
  next
    case (Some t)
    then obtain t' where g: "g c = Some t'" and "shape t = shape t'"
      using eq by (cases "g c") auto
    then show ?thesis using Some clipped_shape(3) [of t t']
      by (simp add: childDuration_def)
  qed
qed

lemma clipNode_shape:
  assumes "same_shape h g" and "shape t = shape t'"
  shows "clipNode g s e t' = clipNode h s e t"
proof -
  have ch: "children t' = children t" using shape_fields [OF assms(2)] by simp
  have cd: "map (childDuration g s e) (children t) = map (childDuration h s e) (children t)"
    using childDuration_shape [OF assms(1)] by simp
  show ?thesis
    unfolding clipNode_def
    by (subst upd_shape, subst (2) upd_shape)
       (simp add: assms(2) ch cd clipped_shape [OF assms(2)])
qed

lemma clipNode_store_shape:
  assumes "same_shape h g"
  shows "map_option (clipNode g s e) (g x) = map_option (clipNode h s e) (h x)"
proof -
  have eq: "map_option shape (h x) = map_option shape (g x)"
    using assms by (simp add: same_shape_def)
  show ?thesis
  proof (cases "h x")
    case None
    then show ?thesis using eq by simp
  next
    case (Some t)
    then obtain t' where gx: "g x = Some t'" and sh: "shape t = shape t'"
      using eq by (cases "g x") auto
    show ?thesis using Some gx clipNode_shape [OF assms sh] by simp
  qed
qed

lemma reach_shape_sub:
  assumes "same_shape h g" and "x \<in> reach h a"
  shows "x \<in> reach g a"
  using assms(2)
proof (induction rule: reach.induct)
  case reach_self
  show ?case by (rule reach.reach_self)
next
  case (reach_child x t c)
  have "map_option shape (h x) = map_option shape (g x)"
    using assms(1) by (simp add: same_shape_def)
  then obtain t' where g: "g x = Some t'" and "shape t = shape t'"
    using reach_child(2) by (cases "g x") auto
  then have "children t' = children t" using shape_fields by metis
  then show ?case using reach.reach_child [OF reach_child(4) g] reach_child(3) by simp
qed

lemma reach_shape: "same_shape h g \<Longrightarrow> reach g a = reach h a"
  using reach_shape_sub same_shape_sym by blast

lemma same_shape_clip_over:
  assumes "same_shape h g"
  shows "same_shape h (clip_over h s e R g)"
  unfolding same_shape_def clip_over_def
proof
  fix x
  have "map_option shape (h x) = map_option shape (g x)"
    using assms by (simp add: same_shape_def)
  then show "map_option shape (h x) =
        map_option shape (if x \<in> R then map_option (clipNode h s e) (h x) else g x)"
    by (cases "h x") auto
qed

lemma clip_over_apply:
  "clip_over h s e R g x = (if x \<in> R then map_option (clipNode h s e) (h x) else g x)"
  by (simp add: clip_over_def)

lemma clip_over_base:
  assumes "same_shape h g"
  shows "clip_over g s e R g = clip_over h s e R g"
proof
  fix x
  show "clip_over g s e R g x = clip_over h s e R g x"
    using clipNode_store_shape [OF assms, of s e x] by (simp add: clip_over_apply)
qed

lemma clip_over_absorb:
  "clip_over h s e R' (clip_over h s e R g) = clip_over h s e (R \<union> R') g"
  by (rule ext) (simp add: clip_over_apply)

lemma reach_trans:
  assumes "x \<in> reach h c" and "c \<in> reach h a"
  shows "x \<in> reach h a"
  using assms
proof (induction rule: reach.induct)
  case reach_self
  then show ?case by simp
next
  case (reach_child x t c')
  then show ?case using reach.reach_child by blast
qed

lemma reach_unfold:
  assumes "h a = Some t"
  shows "reach h a = insert a (\<Union>c\<in>set (children t). reach h c)"
proof (rule set_eqI, rule iffI)
  fix x
  assume "x \<in> reach h a"
  then show "x \<in> insert a (\<Union>c\<in>set (children t). reach h c)"
  proof (induction rule: reach.induct)
    case reach_self
    show ?case by simp
  next
    case (reach_child x t' c)
    show ?case
    proof (cases "x = a")
      case True
      then have "t' = t" using assms reach_child(2) by simp
      then show ?thesis using reach_child(3) reach.reach_self by blast
    next
      case False
      then obtain c0 where c0: "c0 \<in> set (children t)" "x \<in> reach h c0"
        using reach_child(4) by blast
      have "c \<in> reach h c0"
        by (rule reach.reach_child [OF c0(2) reach_child(2) reach_child(3)])
      then show ?thesis using c0(1) by blast
    qed
  qed
next
  fix x
  assume "x \<in> insert a (\<Union>c\<in>set (children t). reach h c)"
  then consider "x = a" | c where "c \<in> set (children t)" "x \<in> reach h c" by blast
  then show "x \<in> reach h a"
  proof cases
    case 1
    then show ?thesis by (simp add: reach.reach_self)
  next
    case 2
    have "c \<in> reach h a"
      by (rule reach.reach_child [of a h a t c, OF reach.reach_self assms 2(1)])
    then show ?thesis using reach_trans [OF 2(2)] by simp
  qed
qed

lemma map_children_closed:
  assumes spec: "\<And>g c g' d. c \<in> set cs \<Longrightarrow> f g c = Some (g', d) \<Longrightarrow>
                   g' = clip_over g s e (reach g c) g \<and> d = childDuration g s e c"
    and "same_shape h g" and "map_children f g cs = Some (g', ds)"
  shows "g' = clip_over h s e (\<Union>c\<in>set cs. reach h c) g \<and> ds = map (childDuration h s e) cs"
  using assms
proof (induction cs arbitrary: g g' ds)
  case Nil
  then show ?case by (auto simp: clip_over_def)
next
  case (Cons c cs)
  from Cons.prems(3) obtain g1 d ds' where
    fc: "f g c = Some (g1, d)" and rest: "map_children f g1 cs = Some (g', ds')" and ds: "ds = d # ds'"
    by (auto split: option.splits)
  have sh: "same_shape h g" by (rule Cons.prems(2))
  have "g1 = clip_over g s e (reach g c) g \<and> d = childDuration g s e c"
    using Cons.prems(1) [OF _ fc] by simp
  then have g1: "g1 = clip_over h s e (reach h c) g" and d: "d = childDuration h s e c"
    using clip_over_base [OF sh] reach_shape [OF sh] childDuration_shape [OF sh] by simp_all
  have sh1: "same_shape h g1" unfolding g1 by (rule same_shape_clip_over [OF sh])
  have "g' = clip_over h s e (\<Union>c\<in>set cs. reach h c) g1 \<and> ds' = map (childDuration h s e) cs"
    by (rule Cons.IH [OF _ sh1 rest]) (rule Cons.prems(1), simp_all)
  then show ?case
    unfolding g1 clip_over_absorb ds d by simp
qed

lemma recursivelyClipTasks_closed:
  "recursivelyClipTasks n h a p s e = Some (h', d) \<Longrightarrow>
     h' = clip_over h s e (reach h a) h \<and> d = childDuration h s e a"
proof (induction n arbitrary: h a p h' d)
  case 0
  then show ?case by simp
next
  case (Suc n)
  from Suc.prems obtain t where ha: "h a = Some t"
    by (auto split: option.splits)
  define t3 where "t3 = t\<lparr>startTime := clippedStart s e t, endTime := clippedEnd s e t,
    duration := clippedDuration s e t\<rparr>"
  define h1 where "h1 = h(a \<mapsto> t3)"
  define f where "f = (\<lambda>h' child. recursivelyClipTasks n h' child (Some a) s e)"
  have ch3: "children t3 = children t" by (simp add: t3_def)
  from Suc.prems ha obtain h2 ds t4 where
    mc: "map_children f h1 (children t) = Some (h2, ds)" and
    h2a: "h2 a = Some t4" and
    h': "h' = h2(a \<mapsto> t4\<lparr>selfTime := duration t4 - foldl (+) 0 ds\<rparr>)" and
    d: "d = duration t4"
    by (auto simp: Let_def t3_def h1_def f_def clippedStart_def clippedEnd_def clippedDuration_def
        split: option.splits)
  have sh1: "same_shape h h1"
    by (simp add: same_shape_def h1_def ha t3_def shape_def)
  have spec: "\<And>g c g' d. c \<in> set (children t) \<Longrightarrow> f g c = Some (g', d) \<Longrightarrow>
                   g' = clip_over g s e (reach g c) g \<and> d = childDuration g s e c"
    unfolding f_def by (rule Suc.IH)
  let ?R = "\<Union>c\<in>set (children t). reach h c"
  have cl: "h2 = clip_over h s e ?R h1" and ds: "ds = map (childDuration h s e) (children t)"
    using map_children_closed [OF spec sh1 mc] by simp_all
  have t4: "t4 = clipNode h s e t \<or> t4 = t3"
    using h2a unfolding cl by (auto simp: clip_over_apply ha h1_def split: if_splits)
  have t5: "t4\<lparr>selfTime := duration t4 - foldl (+) 0 ds\<rparr> = clipNode h s e t"
    using t4 by (auto simp: ds clipNode_def t3_def)
  have dd: "d = childDuration h s e a"
    using t4 by (auto simp: d childDuration_def ha clipNode_def t3_def)
  have "h' = clip_over h s e (reach h a) h"
  proof
    fix x
    show "h' x = clip_over h s e (reach h a) h x"
      unfolding h' t5 cl reach_unfold [of h a t, OF ha]
      by (simp add: clip_over_apply ha h1_def)
  qed
  then show ?case using dd by simp
qed

lemma forest_nodes_Nil [simp]: "forest_nodes h [] = {}"
  by (simp add: forest_nodes_def)

lemma forest_nodes_Cons:
  "forest_nodes h (a # tasks) =
     (if (\<exists>t. h a = Some t \<and> parent t = None) then reach h a \<union> forest_nodes h tasks
      else forest_nodes h tasks)"
  by (auto simp: forest_nodes_def)

lemma clipTasksByTs_closed:
  "same_shape h g \<Longrightarrow> clipTasksByTs n g tasks s e = Some h' \<Longrightarrow>
     h' = clip_over h s e (forest_nodes h tasks) g"
proof (induction tasks arbitrary: g)
  case Nil
  then show ?case by (simp add: clip_over_def)
next
  case (Cons a tasks)
  from Cons.prems(2) obtain t' where ga: "g a = Some t'"
    by (auto split: option.splits)
  have "map_option shape (h a) = map_option shape (g a)"
    using Cons.prems(1) by (simp add: same_shape_def)
  then obtain t where ha: "h a = Some t" and sh: "shape t = shape t'"
    using ga by (cases "h a") auto
  have par: "parent t' = parent t" using shape_fields [OF sh] by simp
  show ?case
  proof (cases "parent t = None")
    case False
    then have "clipTasksByTs n g tasks s e = Some h'"
      using Cons.prems(2) ga par by simp
    then show ?thesis
      using Cons.IH [OF Cons.prems(1)] False ha by (auto simp: forest_nodes_Cons)
  next
    case True
    then obtain g1 d where rc: "recursivelyClipTasks n g a None s e = Some (g1, d)"
      and rest: "clipTasksByTs n g1 tasks s e = Some h'"
      using Cons.prems(2) ga par by (auto split: option.splits)
    have "g1 = clip_over g s e (reach g a) g"
      using recursivelyClipTasks_closed [OF rc] by simp
    then have g1: "g1 = clip_over h s e (reach h a) g"
      using clip_over_base [OF Cons.prems(1)] reach_shape [OF Cons.prems(1)] by simp
    have sh1: "same_shape h g1" unfolding g1 by (rule same_shape_clip_over [OF Cons.prems(1)])
    have "h' = clip_over h s e (forest_nodes h tasks) g1"
      by (rule Cons.IH [OF sh1 rest])
    then show ?thesis
      unfolding g1 clip_over_absorb using True ha by (simp add: forest_nodes_Cons)
  qed
qed

lemma well_formedD:
  assumes "well_formed h rk tasks" and "a \<in> set tasks"
  obtains t where "h a = Some t" and "\<And>c. c \<in> set (children t) \<Longrightarrow> c \<in> set tasks \<and> rk c < rk a"
  using assms unfolding well_formed_def by (cases "h a") (auto split: option.splits)

lemma same_shape_Some:
  assumes "same_shape h g" and "h a = Some t"
  obtains t' where "g a = Some t'" and "shape t = shape t'"
proof -
  have "map_option shape (h a) = map_option shape (g a)"
    using assms(1) by (simp add: same_shape_def)
  then show ?thesis using assms(2) that by (cases "g a") auto
qed

lemma well_formed_shape:
  assumes "same_shape h g" and "well_formed h rk tasks"
  shows "well_formed g rk tasks"
  unfolding well_formed_def
proof
  fix a assume a: "a \<in> set tasks"
  obtain t where ha: "h a = Some t"
    and ch: "\<And>c. c \<in> set (children t) \<Longrightarrow> c \<in> set tasks \<and> rk c < rk a"
    using well_formedD [OF assms(2) a] by blast
  obtain t' where ga: "g a = Some t'" and sh: "shape t = shape t'"
    using same_shape_Some [OF assms(1) ha] by blast
  have "children t' = children t" using shape_fields [OF sh] by simp
  then show "case g a of None \<Rightarrow> False
        | Some t \<Rightarrow> \<forall>c\<in>set (children t). c \<in> set tasks \<and> rk c < rk a"
    using ga ch by simp
qed

lemma recursivelyClipTasks_shape:
  assumes "recursivelyClipTasks n h a p s e = Some (h', d)"
  shows "same_shape h h'"
  using recursivelyClipTasks_closed [OF assms] same_shape_clip_over [OF same_shape_refl] by simp

lemma map_children_total:
  assumes step: "\<And>g c. c \<in> set cs \<Longrightarrow> same_shape h g \<Longrightarrow>
                   \<exists>g' d. f g c = Some (g', d) \<and> same_shape h g'"
    and "same_shape h g"
  shows "\<exists>g' ds. map_children f g cs = Some (g', ds) \<and> same_shape h g'"
  using assms
proof (induction cs arbitrary: g)
  case Nil
  then show ?case by simp
next
  case (Cons c cs)
  obtain g1 d where fc: "f g c = Some (g1, d)" and sh1: "same_shape h g1"
    using Cons.prems(1) [of c g] Cons.prems(2) by auto
  have "\<exists>g' ds. map_children f g1 cs = Some (g', ds) \<and> same_shape h g'"
    by (rule Cons.IH [OF _ sh1]) (rule Cons.prems(1), simp_all)
  then show ?case using fc by auto
qed

lemma recursivelyClipTasks_total:
  "well_formed h rk tasks \<Longrightarrow> a \<in> set tasks \<Longrightarrow> rk a < n \<Longrightarrow>
     \<exists>h' d. recursivelyClipTasks n h a p s e = Some (h', d)"
proof (induction n arbitrary: h a p)
  case 0
  then show ?case by simp
next
  case (Suc n)
  obtain t where ha: "h a = Some t"
    and ch: "\<And>c. c \<in> set (children t) \<Longrightarrow> c \<in> set tasks \<and> rk c < rk a"
    using well_formedD [OF Suc.prems(1) Suc.prems(2)] by blast
  define t3 where "t3 = t\<lparr>startTime := max s (min e (ts (event t))) / 1000,
    endTime := max s (min e (taskEventEnd t)) / 1000,
    duration := max s (min e (taskEventEnd t)) / 1000 - max s (min e (ts (event t))) / 1000\<rparr>"
  define h1 where "h1 = h(a \<mapsto> t3)"
  define f where "f = (\<lambda>h' child. recursivelyClipTasks n h' child (Some a) s e)"
  have sh1: "same_shape h h1"
    by (simp add: same_shape_def h1_def ha t3_def shape_def)
  have step: "\<exists>g' d. f g c = Some (g', d) \<and> same_shape h g'"
    if c: "c \<in> set (children t)" and g: "same_shape h g" for g c
  proof -
    have wf: "well_formed g rk tasks" by (rule well_formed_shape [OF g Suc.prems(1)])
    have "c \<in> set tasks" "rk c < n" using ch [OF c] Suc.prems(3) by simp_all
    then obtain g' d where r: "recursivelyClipTasks n g c (Some a) s e = Some (g', d)"
      using Suc.IH [OF wf] by blast
    have "same_shape h g'"
      by (rule same_shape_trans [OF g recursivelyClipTasks_shape [OF r]])
    then show ?thesis using r by (simp add: f_def)
  qed
  obtain h2 ds where mc: "map_children f h1 (children t) = Some (h2, ds)"
    and sh2: "same_shape h h2"
    using map_children_total [where cs = "children t" and f = f and h = h and g = h1, OF step sh1]
    by blast
  obtain t4 where h2a: "h2 a = Some t4"
    using same_shape_Some [OF sh2 ha] by blast
  show ?case
    using ha mc h2a unfolding f_def h1_def t3_def by (simp add: Let_def)
qed

lemma map_children_calls:
  assumes pres: "\<And>g c g' d. f g c = Some (g', d) \<Longrightarrow> same_shape g g'"
    and "same_shape h g" and "map_children f g cs = Some r" and "c \<in> set cs"
  shows "\<exists>g0 r0. same_shape h g0 \<and> f g0 c = Some r0"
  using assms(2-)
proof (induction cs arbitrary: g r)
  case Nil
  then show ?case by simp
next
  case (Cons c' cs)
  from Cons.prems(2) obtain g1 d r1 where
    fc: "f g c' = Some (g1, d)" and rest: "map_children f g1 cs = Some r1"
    by (auto split: option.splits)
  show ?case
  proof (cases "c = c'")
    case True
    then show ?thesis using fc Cons.prems(1) by blast
  next
    case False
    then have c: "c \<in> set cs" using Cons.prems(3) by simp
    have "same_shape h g1" by (rule same_shape_trans [OF Cons.prems(1) pres [OF fc]])
    then show ?thesis using Cons.IH rest c by blast
  qed
qed

lemma same_shape_None: "same_shape h g \<Longrightarrow> g x \<noteq> None \<Longrightarrow> h x \<noteq> None"
  by (metis same_shape_def option.map_disc_iff)

lemma recursivelyClipTasks_defined:
  "recursivelyClipTasks n h a p s e = Some r \<Longrightarrow> x \<in> reach h a \<Longrightarrow> h x \<noteq> None"
proof (induction n arbitrary: h a p r x)
  case 0
  then show ?case by simp
next
  case (Suc n)
  from Suc.prems(1) obtain t where ha: "h a = Some t"
    by (auto split: option.splits)
  define t3 where "t3 = t\<lparr>startTime := max s (min e (ts (event t))) / 1000,
    endTime := max s (min e (taskEventEnd t)) / 1000,
    duration := max s (min e (taskEventEnd t)) / 1000 - max s (min e (ts (event t))) / 1000\<rparr>"
  define h1 where "h1 = h(a \<mapsto> t3)"
  define f where "f = (\<lambda>h' child. recursivelyClipTasks n h' child (Some a) s e)"
  from Suc.prems(1) ha obtain r1 where mc: "map_children f h1 (children t) = Some r1"
    unfolding f_def h1_def t3_def by (auto simp: Let_def split: option.splits)
  have sh1: "same_shape h h1"
    by (simp add: same_shape_def h1_def ha t3_def shape_def)
  have pres: "\<And>g c g' d. f g c = Some (g', d) \<Longrightarrow> same_shape g g'"
    unfolding f_def by (rule recursivelyClipTasks_shape)
  from Suc.prems(2) consider "x = a" | c where "c \<in> set (children t)" "x \<in> reach h c"
    unfolding reach_unfold [of h a t, OF ha] by blast
  then show ?case
  proof cases
    case 1
    then show ?thesis using ha by simp
  next
    case 2
    have "\<exists>g0 r0. same_shape h g0 \<and> f g0 c = Some r0"
      by (rule map_children_calls [OF _ sh1 mc 2(1)]) (rule pres)
    then obtain g0 r0 where g0: "same_shape h g0" and r0: "f g0 c = Some r0"
      by blast
    have "x \<in> reach g0 c" using 2(2) reach_shape [OF g0] by simp
    then have "g0 x \<noteq> None" using Suc.IH r0 unfolding f_def by blast
    then show ?thesis by (rule same_shape_None [OF g0])
  qed
qed

lemma forest_nodes_shape:
  assumes "same_shape h g"
  shows "forest_nodes g tasks = forest_nodes h tasks"
proof -
  have "(\<exists>t. g a = Some t \<and> parent t = None) = (\<exists>t. h a = Some t \<and> parent t = None)" for a
  proof
    assume "\<exists>t. g a = Some t \<and> parent t = None"
    then obtain t where "g a = Some t" "parent t = None" by blast
    then show "\<exists>t. h a = Some t \<and> parent t = None"
      using same_shape_Some [OF same_shape_sym [OF assms], of a t] shape_fields by metis
  next
    assume "\<exists>t. h a = Some t \<and> parent t = None"
    then obtain t where "h a = Some t" "parent t = None" by blast
    then show "\<exists>t. g a = Some t \<and> parent t = None"
      using same_shape_Some [OF assms, of a t] shape_fields by metis
  qed
  then show ?thesis
    by (simp add: forest_nodes_def reach_shape [OF assms])
qed

lemma clipTasksByTs_defined:
  "same_shape h g \<Longrightarrow> clipTasksByTs n g tasks s e = Some h' \<Longrightarrow>
     x \<in> forest_nodes h tasks \<Longrightarrow> h x \<noteq> None"
proof (induction tasks arbitrary: g)
  case Nil
  then show ?case by simp
next
  case (Cons a tasks)
  from Cons.prems(2) obtain t' where ga: "g a = Some t'"
    by (auto split: option.splits)
  obtain t where ha: "h a = Some t" and sh: "shape t' = shape t"
    using same_shape_Some [OF same_shape_sym [OF Cons.prems(1)] ga] by blast
  have par: "parent t' = parent t" using shape_fields [OF sh] by simp
  show ?case
  proof (cases "parent t = None")
    case False
    then have "clipTasksByTs n g tasks s e = Some h'"
      using Cons.prems(2) ga par by simp
    moreover have "x \<in> forest_nodes h tasks"
      using Cons.prems(3) False ha by (auto simp: forest_nodes_Cons)
    ultimately show ?thesis using Cons.IH [OF Cons.prems(1)] by blast
  next
    case True
    then obtain g1 d where rc: "recursivelyClipTasks n g a None s e = Some (g1, d)"
      and rest: "clipTasksByTs n g1 tasks s e = Some h'"
      using Cons.prems(2) ga par by (auto split: option.splits)
    have sh1: "same_shape h g1"
      by (rule same_shape_trans [OF Cons.prems(1) recursivelyClipTasks_shape [OF rc]])
    from Cons.prems(3) consider "x \<in> reach h a" | "x \<in> forest_nodes h tasks"
      by (auto simp: forest_nodes_Cons split: if_splits)
    then show ?thesis
    proof cases
      case 1
      then have "x \<in> reach g a" using reach_shape [OF Cons.prems(1)] by simp
      then have "g x \<noteq> None" by (rule recursivelyClipTasks_defined [OF rc])
      then show ?thesis by (rule same_shape_None [OF Cons.prems(1)])
    next
      case 2
      then show ?thesis using Cons.IH [OF sh1 rest] by blast
    qed
  qed
qed

lemma clipTasksByTs_total:
  assumes "well_formed h rk all" and "set tasks \<subseteq> set all" and "\<forall>a\<in>set tasks. rk a < n"
  shows "\<exists>h'. clipTasksByTs n h tasks s e = Some h'"
  using assms
proof (induction tasks arbitrary: h)
  case Nil
  then show ?case by simp
next
  case (Cons a tasks)
  have a: "a \<in> set all" "rk a < n" using Cons.prems by simp_all
  obtain t where ha: "h a = Some t"
    using well_formedD [OF Cons.prems(1) a(1)] by blast
  show ?case
  proof (cases "parent t = None")
    case False
    then show ?thesis using Cons.IH [OF Cons.prems(1)] Cons.prems(2,3) ha by simp
  next
    case True
    obtain h1 d where rc: "recursivelyClipTasks n h a None s e = Some (h1, d)"
      using recursivelyClipTasks_total [OF Cons.prems(1) a] by blast
    have "well_formed h1 rk all"
      by (rule well_formed_shape [OF recursivelyClipTasks_shape [OF rc] Cons.prems(1)])
    then have "\<exists>h'. clipTasksByTs n h1 tasks s e = Some h'"
      using Cons.IH Cons.prems(2,3) by simp
    then show ?thesis using ha True rc by simp
  qed
qed

lemma foldl_plus_sum_list: "foldl (+) a xs = a + sum_list (xs :: real list)"
  by (induction xs arbitrary: a) simp_all

lemma clip_over_same_set:
  "clip_over h s e R (clip_over h s' e' R g) = clip_over h s e R g"
  by (rule ext) (simp add: clip_over_apply)

lemma reach_children_closed:
  assumes "x \<in> forest_nodes h tasks" and "h x = Some t" and "c \<in> set (children t)"
  shows "c \<in> forest_nodes h tasks"
  using assms unfolding forest_nodes_def by (blast intro: reach.reach_child)

lemma ex_well_formed: "well_formed ex_store ex_rank [0, 1]"
  by (simp add: well_formed_def ex_store_def ex_root_def ex_child_def ex_rank_def)

lemma ex_fuel: "\<forall>a\<in>set [0, 1]. ex_rank a < 2"
  by (simp add: ex_rank_def)

lemma clipTasksByTs_shape:
  assumes "clipTasksByTs n h tasks s e = Some h'"
  shows "same_shape h h'"
  using clipTasksByTs_closed [OF same_shape_refl assms] same_shape_clip_over [OF same_shape_refl]
  by simp

lemma forest_nodes_root:
  "a \<in> set tasks \<Longrightarrow> h a = Some t \<Longrightarrow> parent t = None \<Longrightarrow> a \<in> forest_nodes h tasks"
  unfolding forest_nodes_def by (blast intro: reach.reach_self)

lemma clip_over_duration:
  assumes "x \<in> R" and "h x = Some t"
  shows "duration (the (clip_over h s e R g x)) = childDuration h s e x"
  using assms by (simp add: clip_over_apply clipNode_def childDuration_def)

lemma listed_tasks_in_forest:
  assumes wf: "well_formed h rk nodes" and sub: "set tasks \<subseteq> set nodes"
    and fuel: "\<forall>a\<in>set tasks. rk a < n" and linked: "parents_linked h tasks"
  shows "a \<in> set tasks \<Longrightarrow> a \<in> forest_nodes h tasks"
proof (induction "n - rk a" arbitrary: a rule: less_induct)
  case less
  have a: "a \<in> set tasks" by (rule less.prems)
  obtain t where ha: "h a = Some t"
    using linked a unfolding parents_linked_def by (cases "h a") (auto split: option.splits)
  show ?case
  proof (cases "parent t")
    case None
    then show ?thesis using forest_nodes_root [of a tasks h t] a ha by simp
  next
    case (Some p)
    have lk: "p \<in> set tasks \<and> (case h p of None \<Rightarrow> False | Some tp \<Rightarrow> a \<in> set (children tp))"
      using linked a ha Some unfolding parents_linked_def by fastforce
    then obtain tp where p: "p \<in> set tasks" and hp: "h p = Some tp" and ch: "a \<in> set (children tp)"
      by (cases "h p") auto
    have "p \<in> set nodes" using p sub by blast
    then have "rk a < rk p"
      using wf hp ch unfolding well_formed_def by fastforce
    moreover have "rk p < n" using fuel p by simp
    ultimately have "n - rk p < n - rk a" by simp
    then have "p \<in> forest_nodes h tasks" using less.hyps p by blast
    then show ?thesis using reach_children_closed [of p h tasks tp a] hp ch by simp
  qed
qed

lemma ex_linked: "parents_linked ex_store [0, 1]"
  by (simp add: parents_linked_def ex_store_def ex_root_def ex_child_def)

section \<open>The sort, the rows and the phase loop\<close>

lemma set_insert_by [simp]: "set (insert_by c x ys) = insert x (set ys)"
  by (induction ys) auto

lemma set_sort_by [simp]: "set (sort_by c xs) = set xs"
  by (induction xs) (simp_all add: sort_by_def)

lemma sort_by_Nil [simp]: "sort_by c [] = []"
  by (simp add: sort_by_def)

lemma sort_by_Cons: "sort_by c (x # xs) = insert_by c x (sort_by c xs)"
  by (simp add: sort_by_def)

lemma sorted_insert_by_total:
  "sorted_wrt (\<lambda>a b. result_row.total b \<le> result_row.total a) ys \<Longrightarrow>
   sorted_wrt (\<lambda>a b. result_row.total b \<le> result_row.total a) (insert_by by_total_desc x ys)"
  by (induction ys) auto

lemma sorted_sort_by_total:
  "sorted_wrt (\<lambda>a b. result_row.total b \<le> result_row.total a) (sort_by by_total_desc xs)"
  by (induction xs) (simp_all add: sort_by_Cons sorted_insert_by_total)

lemma filter_insert_by_total:
  "sorted_wrt (\<lambda>a b. result_row.total b \<le> result_row.total a) ys \<Longrightarrow>
   filter (\<lambda>r. result_row.total r = k) (insert_by by_total_desc x ys)
     = (if result_row.total x = k then x # filter (\<lambda>r. result_row.total r = k) ys
        else filter (\<lambda>r. result_row.total r = k) ys)"
proof (induction ys)
  case Nil
  then show ?case by simp
next
  case (Cons y ys)
  show ?case
  proof (cases "by_total_desc x y \<le> 0")
    case True
    then show ?thesis by simp
  next
    case False
    then have lt: "result_row.total x < result_row.total y" by simp
    have "sorted_wrt (\<lambda>a b. result_row.total b \<le> result_row.total a) ys"
      using Cons.prems by simp
    then show ?thesis using Cons.IH False lt by auto
  qed
qed

lemma filter_sort_by_total:
  "filter (\<lambda>r. result_row.total r = k) (sort_by by_total_desc xs)
     = filter (\<lambda>r. result_row.total r = k) xs"
  by (induction xs) (simp_all add: sort_by_Cons filter_insert_by_total sorted_sort_by_total)

lemma url_results_urls:
  "url_results tg executionTimings = Inr results \<Longrightarrow> map url results = map fst executionTimings"
  by (induction executionTimings arbitrary: results)
     (auto simp: Let_def split: sum.splits)

lemma url_results_total:
  "\<forall>(u, timingByGroupId)\<in>set executionTimings. timingByGroupId \<noteq> [] \<Longrightarrow>
     \<exists>rows. url_results tg executionTimings = Inr rows"
proof (induction executionTimings)
  case Nil
  then show ?case by simp
next
  case (Cons entry executionTimings)
  obtain u timingByGroupId where entry: "entry = (u, timingByGroupId)" by (cases entry)
  have "timingByGroupId \<noteq> []" using Cons.prems entry by simp
  then obtain v where "totalExecutionTime timingByGroupId = Inr v"
    by (cases timingByGroupId) (simp_all add: totalExecutionTime_def)
  moreover obtain rows where "url_results tg executionTimings = Inr rows"
    using Cons by auto
  ultimately show ?case by (simp add: entry Let_def)
qed


lemma phase_items_totals:
  "phase_items C n h threadTasks networkRecords entries = Some (Inr its) \<Longrightarrow>
     map table_item.total its = map (\<lambda>(name, w). (endTs w - startTs w) / 1000) entries
     \<and> map phase its = map (\<lambda>(name, w). UIStrings name) entries"
proof (induction entries arbitrary: h its)
  case Nil
  then show ?case by simp
next
  case (Cons entry entries)
  obtain name w where entry: "entry = (name, w)" by (cases entry)
  have run: "phase_items C n h threadTasks networkRecords ((name, w) # entries) = Some (Inr its)"
    using Cons.prems by (simp add: entry)
  obtain h1 where h1: "clipTasksByTs n h threadTasks (startTs w) (endTs w) = Some h1"
    using run by (cases "clipTasksByTs n h threadTasks (startTs w) (endTs w)") simp_all
  obtain results where
    res: "url_results (taskGroups C) (getExecutionTimingsByURL C h1 threadTasks networkRecords)
            = Inr results"
    using run h1
    by (cases "url_results (taskGroups C) (getExecutionTimingsByURL C h1 threadTasks networkRecords)")
       (simp_all add: Let_def)
  define item where "item = \<lparr>phase = UIStrings name, total = (endTs w - startTs w) / 1000,
                     subItems = filteredResults results\<rparr>"
  have unf: "phase_items C n h threadTasks networkRecords ((name, w) # entries)
      = (case phase_items C n h1 threadTasks networkRecords entries of
           None \<Rightarrow> None
         | Some (Inl err) \<Rightarrow> Some (Inl err)
         | Some (Inr its) \<Rightarrow> Some (Inr (item # its)))"
    unfolding item_def by (simp add: h1 res Let_def)
  obtain its' where rest: "phase_items C n h1 threadTasks networkRecords entries = Some (Inr its')"
    and its: "its = item # its'"
  proof (cases "phase_items C n h1 threadTasks networkRecords entries")
    case None
    then show ?thesis using run unf by simp
  next
    case (Some r)
    then show ?thesis using run unf that by (cases r) simp_all
  qed
  show ?case using Cons.IH [OF rest] by (simp add: its entry item_def)
qed

lemma phase_items_total:
  assumes "well_formed h rk nodes" and "set threadTasks \<subseteq> set nodes"
    and "\<forall>a\<in>set threadTasks. rk a < n"
    and ne: "\<And>h'. \<forall>(u, timingByGroupId)\<in>set (getExecutionTimingsByURL C h' threadTasks networkRecords).
               timingByGroupId \<noteq> []"
  shows "\<exists>its. phase_items C n h threadTasks networkRecords entries = Some (Inr its)"
  using assms(1)
proof (induction entries arbitrary: h)
  case Nil
  then show ?case by simp
next
  case (Cons entry entries)
  obtain name w where entry: "entry = (name, w)" by (cases entry)
  obtain h1 where h1: "clipTasksByTs n h threadTasks (startTs w) (endTs w) = Some h1"
    using clipTasksByTs_total [OF Cons.prems assms(2,3)] by blast
  have "well_formed h1 rk nodes"
    by (rule well_formed_shape [OF clipTasksByTs_shape [OF h1] Cons.prems])
  then obtain its where
    rest: "phase_items C n h1 threadTasks networkRecords entries = Some (Inr its)"
    using Cons.IH by blast
  obtain results where
    res: "url_results (taskGroups C) (getExecutionTimingsByURL C h1 threadTasks networkRecords)
            = Inr results"
    using url_results_total [OF ne] by blast
  show ?case by (simp add: entry h1 res rest Let_def)
qed

lemma eventThreadBreakdown_phase_items:
  obtains h threadTasks where
    "\<exists>evs e. getMainThreadTasks C evs frames e = (h, threadTasks)"
    "eventThreadBreakdown C n interactionEvent traceEvents frames networkRecords
      = (case phase_items C n h threadTasks networkRecords
                (phase_entries (getPhaseTimes interactionEvent)) of
            None \<Rightarrow> None
          | Some (Inl err) \<Rightarrow> Some (Inl err)
          | Some (Inr its) \<Rightarrow>
              Some (Inr (\<lparr>headings = table_headings (taskGroups C), items = its\<rparr>,
                         getPhaseTimes interactionEvent)))"
proof -
  define threadEvents where "threadEvents = filteredTraceSort C traceEvents
            (\<lambda>evt. pid evt = pid interactionEvent \<and> tid evt = tid interactionEvent)"
  define traceEndTs where "traceEndTs = foldl (\<lambda>endTs evt.
              max (ts evt + (case dur evt of None \<Rightarrow> 0 | Some d \<Rightarrow> d)) endTs) 0 threadEvents"
  obtain h threadTasks where g: "getMainThreadTasks C threadEvents frames traceEndTs = (h, threadTasks)"
    by (cases "getMainThreadTasks C threadEvents frames traceEndTs")
  have "eventThreadBreakdown C n interactionEvent traceEvents frames networkRecords
      = (case phase_items C n h threadTasks networkRecords
                (phase_entries (getPhaseTimes interactionEvent)) of
            None \<Rightarrow> None
          | Some (Inl err) \<Rightarrow> Some (Inl err)
          | Some (Inr its) \<Rightarrow>
              Some (Inr (\<lparr>headings = table_headings (taskGroups C), items = its\<rparr>,
                         getPhaseTimes interactionEvent)))"
    unfolding eventThreadBreakdown_def Let_def threadEvents_def [symmetric]
      traceEndTs_def [symmetric] g by simp
  then show ?thesis using that g by blast
qed

lemma eventThreadBreakdown_total:
  assumes "tasks_well_formed C rk n" and "timings_nonempty C"
  shows "\<exists>tbl. eventThreadBreakdown C n interactionEvent traceEvents frames networkRecords
           = Some (Inr (tbl, getPhaseTimes interactionEvent))"
proof -
  obtain h threadTasks where
    g: "\<exists>evs e. getMainThreadTasks C evs frames e = (h, threadTasks)" and
    unf: "eventThreadBreakdown C n interactionEvent traceEvents frames networkRecords
      = (case phase_items C n h threadTasks networkRecords
                (phase_entries (getPhaseTimes interactionEvent)) of
            None \<Rightarrow> None
          | Some (Inl err) \<Rightarrow> Some (Inl err)
          | Some (Inr its) \<Rightarrow>
              Some (Inr (\<lparr>headings = table_headings (taskGroups C), items = its\<rparr>,
                         getPhaseTimes interactionEvent)))"
    by (rule eventThreadBreakdown_phase_items)
  have wf: "well_formed h rk threadTasks" "\<forall>a\<in>set threadTasks. rk a < n"
    using assms(1) g unfolding tasks_well_formed_def by (auto split: prod.splits)
  have ne: "\<And>h'. \<forall>(u, timingByGroupId)\<in>set (getExecutionTimingsByURL C h' threadTasks networkRecords).
               timingByGroupId \<noteq> []"
    using assms(2) unfolding timings_nonempty_def by blast
  obtain its where "phase_items C n h threadTasks networkRecords
                (phase_entries (getPhaseTimes interactionEvent)) = Some (Inr its)"
    using phase_items_total [OF wf(1) subset_refl wf(2) ne] by blast
  then show ?thesis unfolding unf by simp
qed

lemma ex_breakdown:
  "eventThreadBreakdown ex_collaborators 2 ex_interaction [event ex_root, event ex_child] () ()
     = Some (Inr (\<lparr>headings = table_headings ex_groups,
          items = [\<lparr>phase = ''Input delay'', total = 5,
                     subItems = [\<lparr>url = ''http://localhost:10200/events.html'', total = 5,
                                  scripting = 5, layout = 0, render = 0\<rparr>]\<rparr>,
                   \<lparr>phase = ''Processing delay'', total = 41,
                     subItems = [\<lparr>url = ''http://localhost:10200/events.html'', total = 41,
                                  scripting = 41, layout = 0, render = 0\<rparr>]\<rparr>,
                   \<lparr>phase = ''Presentation delay'', total = 322,
                     subItems = [\<lparr>url = ''http://localhost:10200/events.html'', total = 44,
                                  scripting = 44, layout = 0, render = 0\<rparr>]\<rparr>]\<rparr>,
         getPhaseTimes ex_interaction))"
  by (simp add: eventThreadBreakdown_def ex_collaborators_def ex_interaction_def getPhaseTimes_def
      phase_entries_def Let_def numeral_2_eq_2 ex_store_def ex_root_def ex_child_def
      taskEventEnd_def ex_groups_def totalExecutionTime_def timing_or_zero_def
      filteredResults_def sort_by_def TASK_THRESHOLD_def UIStrings_def)

section \<open>The resolver, declaration by declaration\<close>

lemma resolve_artifacts_append:
  "resolve_artifacts H configDir m0 (xs @ ys) =
     (case resolve_artifacts H configDir m0 xs of
        Inl err \<Rightarrow> Inl err
      | Inr (ds, m1) \<Rightarrow>
          (case resolve_artifacts H configDir m1 ys of
             Inl err \<Rightarrow> Inl err
           | Inr (ds', m2) \<Rightarrow> Inr (ds @ ds', m2)))"
  by (induction xs arbitrary: m0) (auto split: sum.splits prod.splits)

lemma resolve_entries_first_missing:
  assumes "resolve_entries H artifactId gath m earlier = Inr es" and "m requiredSymbol = None"
  shows "resolve_entries H artifactId gath m (earlier @ (dependencyName, requiredSymbol) # later)
           = Inl (DependencyOrderError artifactId dependencyName)"
  using assms
proof (induction earlier arbitrary: es)
  case Nil
  then show ?case by (simp add: throwInvalidDependencyOrder_def)
next
  case (Cons entry earlier)
  obtain nm s where entry: "entry = (nm, s)" by (cases entry)
  from Cons.prems(1) obtain es' where "resolve_entries H artifactId gath m earlier = Inr es'"
    unfolding entry by (auto split: option.splits if_splits sum.splits)
  then have "resolve_entries H artifactId gath m (earlier @ (dependencyName, requiredSymbol) # later)
           = Inl (DependencyOrderError artifactId dependencyName)"
    using Cons.IH Cons.prems(2) by blast
  then show ?case using Cons.prems(1) unfolding entry
    by (auto split: option.splits if_splits sum.splits)
qed

lemma resolve_artifact_map:
  assumes "resolve_artifact H configDir m artifactJson = Inr (d, m1)"
  shows "m1 = (case meta_symbol (artifact_defn.gatherer d) of None \<Rightarrow> m | Some s \<Rightarrow> m(s \<mapsto> d))"
    and "artifact_defn.id' d = artifact_json.id' artifactJson"
  using assms unfolding resolve_artifact_def Let_def
  by (auto split: sum.splits if_splits option.splits)

lemma resolve_artifacts_registered:
  "resolve_artifacts H configDir m0 xs = Inr (ds, m) \<Longrightarrow>
     (m s = None) = (m0 s = None \<and> (\<forall>d\<in>set ds. meta_symbol (artifact_defn.gatherer d) \<noteq> Some s))"
proof (induction xs arbitrary: m0 ds)
  case Nil
  then show ?case by simp
next
  case (Cons x xs)
  from Cons.prems obtain d m1 ds' where
    one: "resolve_artifact H configDir m0 x = Inr (d, m1)" and
    rest: "resolve_artifacts H configDir m1 xs = Inr (ds', m)" and ds: "ds = d # ds'"
    by (auto split: sum.splits prod.splits)
  have m1: "m1 = (case meta_symbol (artifact_defn.gatherer d) of None \<Rightarrow> m0 | Some s \<Rightarrow> m0(s \<mapsto> d))"
    by (rule resolve_artifact_map(1) [OF one])
  have "(m1 s = None) = (m0 s = None \<and> meta_symbol (artifact_defn.gatherer d) \<noteq> Some s)"
    unfolding m1 by (auto split: option.splits)
  then show ?case using Cons.IH [OF rest] by (auto simp: ds)
qed

section \<open>Runs of the cache\<close>

lemma cache_inv_handed:
  "cache_inv s \<Longrightarrow> (k, h) \<in> set (snd s) \<Longrightarrow> handle_at (fst s) k = Some h"
  unfolding cache_inv_def by (auto simp: split_beta)

lemma counted_request: "counted c \<Longrightarrow> counted (fst (request fp c kind inputs))"
  by (simp add: counted_def request_def Let_def split: option.splits)

lemma counted_complete: "counted c \<Longrightarrow> counted (complete c k r)"
  by (simp add: counted_def complete_def split: option.splits cached_computation.splits)

lemma handle_request_keep:
  "handle_at c k = Some h \<Longrightarrow> handle_at (fst (request fp c kind inputs)) k = Some h"
  by (auto simp: handle_at_def request_def Let_def split: option.splits)

lemma handle_request_new:
  "handle_at (fst (request fp c kind inputs)) (kind, fp inputs) = Some (snd (request fp c kind inputs))"
  by (simp add: handle_at_def request_def Let_def split: option.splits)

lemma handle_complete: "handle_at (complete c k r) k' = handle_at c k'"
  by (simp add: handle_at_def complete_def split: option.splits cached_computation.splits)

lemma cache_inv_step: "cache_inv s \<Longrightarrow> cache_inv (cache_step fp s ev)"
proof (cases s)
  case (Pair c handed)
  assume "cache_inv s"
  then have cnt: "counted c" and hs: "\<And>k h. (k, h) \<in> set handed \<Longrightarrow> handle_at c k = Some h"
    unfolding Pair cache_inv_def by auto
  show ?thesis
  proof (cases ev)
    case (Request kind inputs)
    obtain c' h where rq: "request fp c kind inputs = (c', h)" by (cases "request fp c kind inputs")
    have "counted c'" using counted_request [OF cnt, of fp kind inputs] rq by simp
    moreover have "handle_at c' k = Some x" if "(k, x) \<in> set handed" for k x
      using handle_request_keep [OF hs [OF that], of fp kind inputs] rq by simp
    moreover have "handle_at c' (kind, fp inputs) = Some h"
      using handle_request_new [of fp c kind inputs] rq by simp
    ultimately show ?thesis
      unfolding Pair Request cache_inv_def by (auto simp: rq)
  next
    case (Finish k r)
    show ?thesis
      unfolding Pair Finish cache_inv_def
      using counted_complete [OF cnt] hs by (auto simp: handle_complete)
  qed
qed

lemma cache_inv_foldl: "cache_inv s \<Longrightarrow> cache_inv (foldl (cache_step fp) s evs)"
  by (induction evs arbitrary: s) (simp_all add: cache_inv_step)

lemma cache_inv_run: "cache_inv (cache_run fp evs)"
  unfolding cache_run_def
  by (rule cache_inv_foldl) (simp add: cache_inv_def empty_cache_def counted_def)

lemma observed_step:
  "observed (fst s) k = Some r \<Longrightarrow> observed (fst (cache_step fp s ev)) k = Some r"
proof (cases s)
  case (Pair c handed)
  assume "observed (fst s) k = Some r"
  then have o: "observed c k = Some r" by (simp add: Pair)
  show ?thesis
  proof (cases ev)
    case (Request kind inputs)
    then show ?thesis using o unfolding Pair
      by (auto simp: observed_def request_def Let_def split: option.splits cached_computation.splits)
  next
    case (Finish k' r')
    then show ?thesis using o unfolding Pair
      by (auto simp: observed_def complete_def split: option.splits cached_computation.splits)
  qed
qed

lemma observed_foldl:
  "observed (fst s) k = Some r \<Longrightarrow> observed (fst (foldl (cache_step fp) s evs)) k = Some r"
  by (induction evs arbitrary: s) (simp_all add: observed_step)

lemma handed_step_mono:
  "x \<in> set (snd s) \<Longrightarrow> x \<in> set (snd (cache_step fp s ev))"
  by (cases s; cases ev) (auto simp: split_beta)

lemma handed_foldl_mono:
  "x \<in> set (snd s) \<Longrightarrow> x \<in> set (snd (foldl (cache_step fp) s evs))"
  by (induction evs arbitrary: s) (simp_all add: handed_step_mono)

lemma requests_handed:
  "Request kind inputs \<in> set evs \<Longrightarrow>
     \<exists>h. ((kind, fp inputs), h) \<in> set (snd (foldl (cache_step fp) s evs))"
proof (induction evs arbitrary: s)
  case Nil
  then show ?case by simp
next
  case (Cons ev evs)
  show ?case
  proof (cases "ev = Request kind inputs")
    case True
    obtain c handed where s: "s = (c, handed)" by (cases s)
    have "((kind, fp inputs), snd (request fp c kind inputs)) \<in> set (snd (cache_step fp s ev))"
      by (simp add: s True split_beta)
    then show ?thesis using handed_foldl_mono by fastforce
  next
    case False
    then have "Request kind inputs \<in> set evs" using Cons.prems by simp
    then show ?thesis using Cons.IH by simp
  qed
qed

section \<open>Claims about clipping\<close>

text \<open>
  Claim C1.  Clipping is recomputed from the original event timestamps every time:
  on a well-formed forest, with any depth bound above the ranks, the three runs
  return, and clipping to window A and then to window B leaves exactly the store
  that clipping the freshly built forest to window B alone leaves; so every node
  has the same \<open>startTime\<close>, \<open>endTime\<close>, \<open>duration\<close> and \<open>selfTime\<close> (and the same
  everything else) either way.
\<close>

theorem clip_then_clip_is_clip:
  assumes "well_formed h rk nodes" and "set tasks \<subseteq> set nodes" and "\<forall>a\<in>set tasks. rk a < n"
  shows "\<exists>hA hB. clipTasksByTs n h tasks startA endA = Some hA
           \<and> clipTasksByTs n h tasks startB endB = Some hB
           \<and> clipTasksByTs n hA tasks startB endB = Some hB"
proof -
  obtain hA where A: "clipTasksByTs n h tasks startA endA = Some hA"
    using clipTasksByTs_total [OF assms] by blast
  obtain hB where B: "clipTasksByTs n h tasks startB endB = Some hB"
    using clipTasksByTs_total [OF assms] by blast
  let ?F = "forest_nodes h tasks"
  have hA: "hA = clip_over h startA endA ?F h"
    by (rule clipTasksByTs_closed [OF same_shape_refl A])
  have hB: "hB = clip_over h startB endB ?F h"
    by (rule clipTasksByTs_closed [OF same_shape_refl B])
  have shA: "same_shape h hA" unfolding hA by (rule same_shape_clip_over [OF same_shape_refl])
  have "well_formed hA rk nodes" by (rule well_formed_shape [OF shA assms(1)])
  then obtain hAB where AB: "clipTasksByTs n hA tasks startB endB = Some hAB"
    using clipTasksByTs_total assms(2,3) by blast
  have "hAB = clip_over h startB endB ?F hA"
    by (rule clipTasksByTs_closed [OF shA AB])
  then have "hAB = hB" unfolding hA hB by (simp only: clip_over_same_set)
  then show ?thesis using A B AB by simp
qed

theorem clip_then_clip_is_clip_witness:
  "\<exists>hA hB. clipTasksByTs 2 ex_store [0, 1] 0 50000 = Some hA
     \<and> clipTasksByTs 2 ex_store [0, 1] 30000 90000 = Some hB
     \<and> clipTasksByTs 2 hA [0, 1] 30000 90000 = Some hB"
  using clip_then_clip_is_clip [where startA = 0 and endA = 50000 and startB = 30000
      and endB = 90000, OF ex_well_formed _ ex_fuel]
  by simp

text \<open>
  Claim C2.  The clip of a well-formed forest returns, with any window, and then
  every node of the forest has a \<open>selfTime\<close> equal to its \<open>duration\<close> minus the sum
  of the clipped durations of its children (which all exist in the store).  When
  the parent links agree with the children references, the forest holds every
  node that the array lists.
\<close>

theorem selfTime_is_duration_minus_children:
  assumes "well_formed h rk nodes" and "set tasks \<subseteq> set nodes" and "\<forall>a\<in>set tasks. rk a < n"
  shows "\<exists>h'. clipTasksByTs n h tasks winStart winEnd = Some h'
           \<and> (\<forall>x\<in>forest_nodes h tasks. \<exists>t. h' x = Some t
                 \<and> (\<forall>c\<in>set (children t). h' c \<noteq> None)
                 \<and> selfTime t = duration t - (\<Sum>c\<leftarrow>children t. duration (the (h' c))))
           \<and> (parents_linked h tasks \<longrightarrow> set tasks \<subseteq> forest_nodes h tasks)"
proof -
  obtain h' where run: "clipTasksByTs n h tasks winStart winEnd = Some h'"
    using clipTasksByTs_total [OF assms] by blast
  let ?F = "forest_nodes h tasks"
  have h': "h' = clip_over h winStart winEnd ?F h"
    by (rule clipTasksByTs_closed [OF same_shape_refl run])
  have "\<exists>t. h' x = Some t \<and> (\<forall>c\<in>set (children t). h' c \<noteq> None)
          \<and> selfTime t = duration t - (\<Sum>c\<leftarrow>children t. duration (the (h' c)))"
    if x: "x \<in> ?F" for x
  proof -
    obtain t0 where hx: "h x = Some t0"
      using clipTasksByTs_defined [OF same_shape_refl run x] by blast
    let ?t = "clipNode h winStart winEnd t0"
    have t: "h' x = Some ?t" using x hx by (simp add: h' clip_over_apply)
    have ch: "children ?t = children t0" by (simp add: clipNode_def)
    have kids: "c \<in> ?F \<and> h c \<noteq> None" if "c \<in> set (children t0)" for c
    proof -
      have "c \<in> ?F" by (rule reach_children_closed [OF x hx that])
      then show ?thesis using clipTasksByTs_defined [OF same_shape_refl run] by blast
    qed
    have def: "\<forall>c\<in>set (children ?t). h' c \<noteq> None"
      using kids by (auto simp: ch h' clip_over_apply)
    have cd: "duration (the (h' c)) = childDuration h winStart winEnd c"
      if "c \<in> set (children t0)" for c
      using kids [OF that] unfolding h' by (auto intro: clip_over_duration)
    have eq: "map (\<lambda>c. duration (the (h' c))) (children t0)
        = map (childDuration h winStart winEnd) (children t0)"
      by (rule map_cong [OF refl]) (rule cd)
    have st: "selfTime ?t
        = duration ?t - sum_list (map (childDuration h winStart winEnd) (children t0))"
      by (simp add: clipNode_def foldl_plus_sum_list)
    have "selfTime ?t = duration ?t - (\<Sum>c\<leftarrow>children ?t. duration (the (h' c)))"
      unfolding ch eq by (rule st)
    then show ?thesis using t def by blast
  qed
  moreover have "set tasks \<subseteq> forest_nodes h tasks" if "parents_linked h tasks"
    using listed_tasks_in_forest [OF assms that] by blast
  ultimately show ?thesis using run by blast
qed

theorem selfTime_is_duration_minus_children_witness:
  "\<exists>h' t c. clipTasksByTs 2 ex_store [0, 1] 30000 90000 = Some h' \<and> h' 0 = Some t
     \<and> h' 1 = Some c \<and> selfTime t = duration t - duration c \<and> selfTime c = duration c"
proof -
  obtain h' where run: "clipTasksByTs 2 ex_store [0, 1] 30000 90000 = Some h'"
    and inv: "\<And>x. x \<in> forest_nodes ex_store [0, 1] \<Longrightarrow> \<exists>t. h' x = Some t
                 \<and> (\<forall>c\<in>set (children t). h' c \<noteq> None)
                 \<and> selfTime t = duration t - (\<Sum>c\<leftarrow>children t. duration (the (h' c)))"
    and all: "set [0, 1] \<subseteq> forest_nodes ex_store [0, 1]"
    using selfTime_is_duration_minus_children [where winStart = 30000 and winEnd = 90000,
        OF ex_well_formed subset_refl ex_fuel] ex_linked
    by blast
  have sh: "same_shape ex_store h'" by (rule clipTasksByTs_shape [OF run])
  obtain t where t: "h' 0 = Some t"
    "selfTime t = duration t - (\<Sum>c\<leftarrow>children t. duration (the (h' c)))"
    using inv [of 0] all by auto
  obtain c where c: "h' 1 = Some c"
    "selfTime c = duration c - (\<Sum>c\<leftarrow>children c. duration (the (h' c)))"
    using inv [of 1] all by auto
  have r0: "ex_store 0 = Some ex_root" and r1: "ex_store 1 = Some ex_child"
    by (simp_all add: ex_store_def)
  have "shape ex_root = shape t"
    using same_shape_Some [OF sh r0] t(1) by auto
  then have "children t = [1]"
    using shape_fields [of ex_root t] by (simp add: ex_root_def)
  moreover have "shape ex_child = shape c"
    using same_shape_Some [OF sh r1] c(1) by auto
  then have "children c = []"
    using shape_fields [of ex_child c] by (simp add: ex_child_def)
  ultimately show ?thesis using run t c by simp
qed

text \<open>
  Claim C7.  A clip changes nothing but the four derived fields: no object appears
  or disappears, and every node keeps its event record (\<open>event.ts\<close>, \<open>event.dur\<close>,
  \<open>endEvent.ts\<close>), its children sequence and its parent link; the clipped node is
  the old node with new \<open>startTime\<close>, \<open>endTime\<close>, \<open>duration\<close> and \<open>selfTime\<close>.
\<close>

theorem clip_frame:
  assumes "well_formed h rk nodes" and "set tasks \<subseteq> set nodes" and "\<forall>a\<in>set tasks. rk a < n"
  shows "\<exists>h'. clipTasksByTs n h tasks winStart winEnd = Some h'
           \<and> (\<forall>x. case h x of
                  None \<Rightarrow> h' x = None
                | Some t \<Rightarrow> (\<exists>t'. h' x = Some t'
                    \<and> ts (event t') = ts (event t) \<and> dur (event t') = dur (event t)
                    \<and> map_option ts (endEvent t') = map_option ts (endEvent t)
                    \<and> children t' = children t \<and> parent t' = parent t
                    \<and> t' = t\<lparr>startTime := startTime t', endTime := endTime t',
                             duration := duration t', selfTime := selfTime t'\<rparr>))"
proof -
  obtain h' where run: "clipTasksByTs n h tasks winStart winEnd = Some h'"
    using clipTasksByTs_total [OF assms] by blast
  have sh: "same_shape h h'"
    using clipTasksByTs_closed [OF same_shape_refl run] same_shape_clip_over [OF same_shape_refl]
    by simp
  have "case h x of None \<Rightarrow> h' x = None
        | Some t \<Rightarrow> (\<exists>t'. h' x = Some t'
            \<and> ts (event t') = ts (event t) \<and> dur (event t') = dur (event t)
            \<and> map_option ts (endEvent t') = map_option ts (endEvent t)
            \<and> children t' = children t \<and> parent t' = parent t
            \<and> t' = t\<lparr>startTime := startTime t', endTime := endTime t',
                     duration := duration t', selfTime := selfTime t'\<rparr>)" for x
  proof (cases "h x")
    case None
    then have "h' x = None" using same_shape_None [OF sh, of x] by blast
    then show ?thesis using None by simp
  next
    case (Some t)
    obtain t' where t': "h' x = Some t'" and st: "shape t = shape t'"
      using same_shape_Some [OF sh Some] by blast
    have "t\<lparr>startTime := startTime t', endTime := endTime t',
            duration := duration t', selfTime := selfTime t'\<rparr>
        = (shape t')\<lparr>startTime := startTime t', endTime := endTime t',
            duration := duration t', selfTime := selfTime t'\<rparr>"
      by (subst upd_shape) (simp add: st)
    also have "\<dots> = t'" by (simp add: shape_def)
    finally show ?thesis using Some t' shape_fields [OF st] by simp
  qed
  then show ?thesis using run by blast
qed


theorem clip_frame_witness:
  "\<exists>h' t'. clipTasksByTs 2 ex_store [0, 1] 30000 90000 = Some h' \<and> h' 1 = Some t'
     \<and> ts (event t') = 20000 \<and> dur (event t') = None \<and> map_option ts (endEvent t') = Some 60000
     \<and> children t' = [] \<and> parent t' = Some 0
     \<and> t' = ex_child\<lparr>startTime := startTime t', endTime := endTime t',
                       duration := duration t', selfTime := selfTime t'\<rparr>"
proof -
  have c: "ex_store 1 = Some ex_child" by (simp add: ex_store_def)
  obtain h' where run: "clipTasksByTs 2 ex_store [0, 1] 30000 90000 = Some h'"
    and fr: "\<And>x. case ex_store x of
                  None \<Rightarrow> h' x = None
                | Some t \<Rightarrow> (\<exists>t'. h' x = Some t'
                    \<and> ts (event t') = ts (event t) \<and> dur (event t') = dur (event t)
                    \<and> map_option ts (endEvent t') = map_option ts (endEvent t)
                    \<and> children t' = children t \<and> parent t' = parent t
                    \<and> t' = t\<lparr>startTime := startTime t', endTime := endTime t',
                             duration := duration t', selfTime := selfTime t'\<rparr>)"
    using clip_frame [where winStart = 30000 and winEnd = 90000,
        OF ex_well_formed subset_refl ex_fuel]
    by blast
  obtain t' where "h' 1 = Some t'" "ts (event t') = ts (event ex_child)"
    "dur (event t') = dur (event ex_child)"
    "map_option ts (endEvent t') = map_option ts (endEvent ex_child)"
    "children t' = children ex_child" "parent t' = parent ex_child"
    "t' = ex_child\<lparr>startTime := startTime t', endTime := endTime t',
                             duration := duration t', selfTime := selfTime t'\<rparr>"
    using fr [of 1] unfolding c by auto
  then show ?thesis using run by (simp add: ex_child_def)
qed

section \<open>Claims about the phases, the table and the audit\<close>

text \<open>
  Claim C3, as the code has it.  The three windows of \<open>getPhaseTimes\<close> are
  contiguous (each \<open>endTs\<close> is the next \<open>startTs\<close>), the first starts at the
  interaction's \<open>ts\<close>, and the last ends at \<open>ts\<close> plus 1000 times the interaction's
  \<open>duration\<close>: the offsets of the event are milliseconds and the windows are in
  the microseconds of the trace.  So the lengths of the windows sum to 1000 times
  the duration.
\<close>

theorem phase_times_partition:
  "endTs (inputDelay (getPhaseTimes ev)) = startTs (processingDelay (getPhaseTimes ev))
   \<and> endTs (processingDelay (getPhaseTimes ev)) = startTs (presentationDelay (getPhaseTimes ev))
   \<and> startTs (inputDelay (getPhaseTimes ev)) = ts ev
   \<and> endTs (presentationDelay (getPhaseTimes ev))
       = ts ev + interaction_data.duration (args_data ev) * 1000
   \<and> window_length (inputDelay (getPhaseTimes ev))
       + window_length (processingDelay (getPhaseTimes ev))
       + window_length (presentationDelay (getPhaseTimes ev))
       = interaction_data.duration (args_data ev) * 1000"
  by (simp add: getPhaseTimes_def window_length_def Let_def)

text \<open>
  The claim as it is written (the windows end at \<open>ts\<close> plus the duration, and their
  lengths sum to the duration) fails for the interaction of 368 ms at
  \<open>ts = 10000\<close>: the last window ends at 378000, not at 10368.
\<close>

theorem phase_times_partition_counterexample:
  "endTs (presentationDelay (getPhaseTimes ex_interaction))
     \<noteq> ts ex_interaction + interaction_data.duration (args_data ex_interaction)
   \<and> window_length (inputDelay (getPhaseTimes ex_interaction))
       + window_length (processingDelay (getPhaseTimes ex_interaction))
       + window_length (presentationDelay (getPhaseTimes ex_interaction))
     \<noteq> interaction_data.duration (args_data ex_interaction)"
  by (simp add: getPhaseTimes_def window_length_def Let_def ex_interaction_def)

text \<open>
  Claim C6, as the code has it.  The rows are built in the order in which
  \<open>getExecutionTimingsByURL\<close> lists the URLs.  The rows that are kept are those with
  a total above \<open>TASK_THRESHOLD\<close> (a total equal to it is dropped too); they come
  out in descending order of total; and rows of equal total keep the order they
  had in the list of URLs.
\<close>

theorem per_origin_rows_filtered_and_sorted:
  assumes "url_results tg executionTimings = Inr results"
  shows "map url results = map fst executionTimings
    \<and> set (filteredResults results) = {r \<in> set results. TASK_THRESHOLD < result_row.total r}
    \<and> sorted_wrt (\<lambda>a b. result_row.total b \<le> result_row.total a) (filteredResults results)
    \<and> (\<forall>k. filter (\<lambda>r. result_row.total r = k) (filteredResults results)
            = filter (\<lambda>r. result_row.total r = k \<and> TASK_THRESHOLD < result_row.total r) results)"
proof -
  have "filter (\<lambda>r. result_row.total r = k) (filteredResults results)
            = filter (\<lambda>r. result_row.total r = k \<and> TASK_THRESHOLD < result_row.total r) results" for k
    unfolding filteredResults_def filter_sort_by_total by (simp add: conj_commute)
  then show ?thesis
    using url_results_urls [OF assms]
    by (simp add: filteredResults_def sorted_sort_by_total)
qed

theorem per_origin_rows_filtered_and_sorted_witness:
  "\<exists>results. url_results ex_groups ex_timings = Inr results
     \<and> map url results = [''b'', ''d'', ''a'', ''e'', ''c'']
     \<and> map url (filteredResults results) = [''e'', ''b'', ''a'', ''c'']
     \<and> sorted_wrt (\<lambda>a b. result_row.total b \<le> result_row.total a) (filteredResults results)
     \<and> filter (\<lambda>r. result_row.total r = 5) (filteredResults results)
         = filter (\<lambda>r. result_row.total r = 5 \<and> TASK_THRESHOLD < result_row.total r) results"
proof -
  obtain results where r: "url_results ex_groups ex_timings = Inr results"
    and v: "map url (filteredResults results) = [''e'', ''b'', ''a'', ''c'']"
    by (simp add: ex_timings_def ex_groups_def Let_def totalExecutionTime_def timing_or_zero_def
        filteredResults_def sort_by_def TASK_THRESHOLD_def)
  show ?thesis
    using per_origin_rows_filtered_and_sorted [OF r] r v by (simp add: ex_timings_def)
qed

text \<open>
  The claim as it is written has ties broken by origin.  Five origins listed as
  b, d, a, e, c, where a, b and c have the total 5: the rows come out as e, b, a, c,
  the ties in neither order of their origins; and the same timings listed in the
  reverse order come out as e, c, a, b.
\<close>

theorem per_origin_rows_filtered_and_sorted_counterexample:
  "map_sum id (\<lambda>results. map url (filteredResults results)) (url_results ex_groups ex_timings)
     = Inr [''e'', ''b'', ''a'', ''c'']
   \<and> map_sum id (\<lambda>results. map url (filteredResults results)) (url_results ex_groups (rev ex_timings))
     = Inr [''e'', ''c'', ''a'', ''b'']"
  by (simp add: ex_timings_def ex_groups_def Let_def totalExecutionTime_def timing_or_zero_def
      filteredResults_def sort_by_def TASK_THRESHOLD_def)




text \<open>
  Claim C10.  When the breakdown returns its table, the table has one row for
  each phase, in the order of \<open>getPhaseTimes\<close>, and the \<open>total\<close> of a row is the
  length of the phase's window in milliseconds, \<open>(endTs - startTs) / 1000\<close>:
  whatever the timings and so the sub-items are.  And the breakdown does return
  its table on a well-formed task forest, with timings that list no URL without
  a value.
\<close>

theorem phase_row_total_is_window_length:
  "(\<forall>tbl phases.
      eventThreadBreakdown C n interactionEvent traceEvents frames networkRecords
        = Some (Inr (tbl, phases)) \<longrightarrow>
      phases = getPhaseTimes interactionEvent
      \<and> map table_item.total (items tbl)
          = [(endTs (inputDelay phases) - startTs (inputDelay phases)) / 1000,
             (endTs (processingDelay phases) - startTs (processingDelay phases)) / 1000,
             (endTs (presentationDelay phases) - startTs (presentationDelay phases)) / 1000]
      \<and> map phase (items tbl) = [''Input delay'', ''Processing delay'', ''Presentation delay''])
   \<and> (tasks_well_formed C rk n \<longrightarrow> timings_nonempty C \<longrightarrow>
        (\<exists>tbl. eventThreadBreakdown C n interactionEvent traceEvents frames networkRecords
                 = Some (Inr (tbl, getPhaseTimes interactionEvent))))"
proof (intro conjI allI impI)
  fix tbl phases
  assume run: "eventThreadBreakdown C n interactionEvent traceEvents frames networkRecords
             = Some (Inr (tbl, phases))"
  let ?entries = "phase_entries (getPhaseTimes interactionEvent)"
  obtain h threadTasks where
    unf: "eventThreadBreakdown C n interactionEvent traceEvents frames networkRecords
      = (case phase_items C n h threadTasks networkRecords ?entries of
            None \<Rightarrow> None
          | Some (Inl err) \<Rightarrow> Some (Inl err)
          | Some (Inr its) \<Rightarrow>
              Some (Inr (\<lparr>headings = table_headings (taskGroups C), items = its\<rparr>,
                         getPhaseTimes interactionEvent)))"
    by (rule eventThreadBreakdown_phase_items)
  have both: "phase_items C n h threadTasks networkRecords ?entries = Some (Inr (items tbl))
      \<and> phases = getPhaseTimes interactionEvent"
  proof (cases "phase_items C n h threadTasks networkRecords ?entries")
    case None
    then show ?thesis using run unf by simp
  next
    case (Some r)
    then show ?thesis using run unf by (cases r) auto
  qed
  then show "phases = getPhaseTimes interactionEvent" by simp
  show "map table_item.total (items tbl)
          = [(endTs (inputDelay phases) - startTs (inputDelay phases)) / 1000,
             (endTs (processingDelay phases) - startTs (processingDelay phases)) / 1000,
             (endTs (presentationDelay phases) - startTs (presentationDelay phases)) / 1000]"
    using phase_items_totals [of C n h threadTasks networkRecords ?entries "items tbl"] both
    by (simp add: phase_entries_def)
  show "map phase (items tbl) = [''Input delay'', ''Processing delay'', ''Presentation delay'']"
    using phase_items_totals [of C n h threadTasks networkRecords ?entries "items tbl"] both
    by (simp add: phase_entries_def UIStrings_def)
next
  assume "tasks_well_formed C rk n" and "timings_nonempty C"
  then show "\<exists>tbl. eventThreadBreakdown C n interactionEvent traceEvents frames networkRecords
                 = Some (Inr (tbl, getPhaseTimes interactionEvent))"
    by (rule eventThreadBreakdown_total)
qed

theorem phase_row_total_is_window_length_witness:
  "\<exists>tbl phases. eventThreadBreakdown ex_collaborators 2 ex_interaction
        [event ex_root, event ex_child] () () = Some (Inr (tbl, phases))
     \<and> phases = getPhaseTimes ex_interaction
     \<and> map table_item.total (items tbl) = [5, 41, 322]
     \<and> map (\<lambda>item. sum_list (map result_row.total (subItems item))) (items tbl) = [5, 41, 44]"
proof -
  have wf: "tasks_well_formed ex_collaborators ex_rank 2"
    using ex_well_formed ex_fuel by (simp add: tasks_well_formed_def ex_collaborators_def)
  have ne: "timings_nonempty ex_collaborators"
    by (simp add: timings_nonempty_def ex_collaborators_def)
  obtain tbl where run: "eventThreadBreakdown ex_collaborators 2 ex_interaction
        [event ex_root, event ex_child] () () = Some (Inr (tbl, getPhaseTimes ex_interaction))"
    and tot: "map table_item.total (items tbl)
          = [(endTs (inputDelay (getPhaseTimes ex_interaction))
               - startTs (inputDelay (getPhaseTimes ex_interaction))) / 1000,
             (endTs (processingDelay (getPhaseTimes ex_interaction))
               - startTs (processingDelay (getPhaseTimes ex_interaction))) / 1000,
             (endTs (presentationDelay (getPhaseTimes ex_interaction))
               - startTs (presentationDelay (getPhaseTimes ex_interaction))) / 1000]"
    using phase_row_total_is_window_length [of ex_collaborators 2 ex_interaction
        "[event ex_root, event ex_child]" "()" "()" ex_rank] wf ne
    by blast
  then show ?thesis
    using ex_breakdown by (simp add: getPhaseTimes_def ex_interaction_def Let_def)
qed

section \<open>Claims about the resolver\<close>

text \<open>
  Claim C4, as the code has it.  Resolution stops at the first throw.  When the
  declarations before a declaration resolve, its gatherer resolves and has a meta
  object, the dependency entries before one of its entries resolve, and no
  declaration before it has registered the symbol that this entry requires
  (whatever the declarations after it register), resolution fails with the
  dependency order error that names the declaration's id and this entry's
  dependency name.
\<close>

theorem first_missing_dependency_fails:
  assumes "resolve_artifacts H configDir Map.empty before = Inr (defns, m)"
    and "resolveGathererToDefn H (artifact_json.gatherer a) configDir = Inr gath"
    and "isFRGathererDefn H gath"
    and "meta_dependencies gath = Some (earlier @ (dependencyName, requiredSymbol) # later)"
    and "resolve_entries H (artifact_json.id' a) gath m earlier = Inr es"
    and "\<forall>d\<in>set defns. meta_symbol (artifact_defn.gatherer d) \<noteq> Some requiredSymbol"
  shows "resolveArtifactsToDefns H (Some (before @ a # after)) configDir
           = Inl (DependencyOrderError (artifact_json.id' a) dependencyName)"
proof -
  have "m requiredSymbol = None"
    using resolve_artifacts_registered [OF assms(1), of requiredSymbol] assms(6) by simp
  then have "resolve_entries H (artifact_json.id' a) gath m
      (earlier @ (dependencyName, requiredSymbol) # later)
           = Inl (DependencyOrderError (artifact_json.id' a) dependencyName)"
    by (rule resolve_entries_first_missing [OF assms(5)])
  then have "resolve_artifact H configDir m a
           = Inl (DependencyOrderError (artifact_json.id' a) dependencyName)"
    using assms(2,3,4) by (simp add: resolve_artifact_def resolveArtifactDependencies_def Let_def)
  then show ?thesis
    using assms(1) by (simp add: resolveArtifactsToDefns_def resolve_artifacts_append)
qed

theorem first_missing_dependency_fails_witness:
  "resolveArtifactsToDefns ex_helpers
     (Some [decl ''A'' gatherer_A, decl ''B'' gatherer_B,
            decl ''T'' gatherer_T]) None
     = Inl (DependencyOrderError ''B'' ''Trace'')"
proof -
  have pre: "resolve_artifacts ex_helpers None Map.empty [decl ''A'' gatherer_A]
      = Inr ([defn_A], [1 \<mapsto> defn_A])"
    by (simp add: resolve_artifact_def resolveArtifactDependencies_def ex_helpers_def gatherer_A_def
        defn_A_def Let_def decl_def)
  show ?thesis
    using first_missing_dependency_fails [where H = ex_helpers and configDir = None
        and before = "[decl ''A'' gatherer_A]"
        and a = "decl ''B'' gatherer_B"
        and after = "[decl ''T'' gatherer_T]"
        and gath = gatherer_B and earlier = "[(''DevtoolsLog'', 1)]"
        and dependencyName = "''Trace''" and requiredSymbol = 2 and later = "[]"
        and es = "[(''DevtoolsLog'', ''A'')]", OF pre]
    by (simp add: ex_helpers_def gatherer_B_def gatherer_A_def defn_A_def decl_def)
qed

text \<open>
  The claim as it is written speaks of every entry whose symbol is not registered.
  A single declaration B whose gatherer depends on two symbols, neither of them
  registered: the error names the first entry, \<open>DevtoolsLog\<close>, and not the second,
  \<open>Trace\<close>.
\<close>

theorem first_missing_dependency_fails_counterexample:
  "resolveArtifactsToDefns ex_helpers (Some [decl ''B'' gatherer_B]) None
     = Inl (DependencyOrderError ''B'' ''DevtoolsLog'')
   \<and> resolveArtifactsToDefns ex_helpers (Some [decl ''B'' gatherer_B]) None
     \<noteq> Inl (DependencyOrderError ''B'' ''Trace'')"
  by (simp add: resolveArtifactsToDefns_def resolve_artifact_def resolveArtifactDependencies_def
      ex_helpers_def gatherer_B_def Let_def throwInvalidDependencyOrder_def decl_def)

text \<open>
  Claim C5, as the code has it.  Registering is \<open>Map.prototype.set\<close>: a
  declaration whose gatherer and dependencies resolve is resolved and registered
  whatever the map holds, so a symbol that is registered again is given to the
  later declaration, and an id that is declared again is accepted.
\<close>

theorem registering_again_overwrites:
  assumes "resolve_artifacts H configDir Map.empty before = Inr (defns, m)"
    and "resolveGathererToDefn H (artifact_json.gatherer a) configDir = Inr gath"
    and "isFRGathererDefn H gath"
    and "meta_symbol gath = Some s"
    and "resolveArtifactDependencies H a gath m = Inr deps"
    and "d = \<lparr>id' = artifact_json.id' a, gatherer = gath, dependencies = deps\<rparr>"
  shows "resolve_artifacts H configDir Map.empty (before @ [a]) = Inr (defns @ [d], m(s \<mapsto> d))
    \<and> resolveArtifactsToDefns H (Some (before @ [a])) configDir = Inr (Some (defns @ [d]))"
proof -
  have "resolve_artifact H configDir m a = Inr (d, m(s \<mapsto> d))"
    using assms(2-6) by (simp add: resolve_artifact_def Let_def)
  then have "resolve_artifacts H configDir Map.empty (before @ [a]) = Inr (defns @ [d], m(s \<mapsto> d))"
    using assms(1) by (simp add: resolve_artifacts_append)
  then show ?thesis by (simp add: resolveArtifactsToDefns_def)
qed

theorem registering_again_overwrites_witness:
  "resolve_artifacts ex_helpers None Map.empty
     [decl ''A'' gatherer_A, decl ''A'' gatherer_A]
     = Inr ([defn_A, defn_A], [1 \<mapsto> defn_A])
   \<and> resolveArtifactsToDefns ex_helpers
     (Some [decl ''A'' gatherer_A, decl ''A'' gatherer_A]) None
     = Inr (Some [defn_A, defn_A])"
proof -
  have pre: "resolve_artifacts ex_helpers None Map.empty [decl ''A'' gatherer_A]
      = Inr ([defn_A], [1 \<mapsto> defn_A])"
    by (simp add: resolve_artifact_def resolveArtifactDependencies_def ex_helpers_def gatherer_A_def
        defn_A_def Let_def decl_def)
  show ?thesis
    using registering_again_overwrites [where H = ex_helpers and configDir = None
        and before = "[decl ''A'' gatherer_A]"
        and a = "decl ''A'' gatherer_A"
        and gath = gatherer_A and s = 1 and deps = None and d = defn_A, OF pre]
    by (simp add: ex_helpers_def gatherer_A_def defn_A_def resolveArtifactDependencies_def
        decl_def)
qed

text \<open>
  The claim as it is written has such a resolution fail.  The id A declared twice
  with the same gatherer (so the same symbol twice), then A2 with that gatherer
  again, then a declaration that depends on the symbol: resolution succeeds, and
  the dependency resolves to A2.
\<close>

theorem registering_again_overwrites_counterexample:
  "resolveArtifactsToDefns ex_helpers
     (Some [decl ''A'' gatherer_A, decl ''A'' gatherer_A,
            decl ''A2'' gatherer_A, decl ''N'' gatherer_N]) None
     = Inr (Some [defn_A, defn_A, defn_A\<lparr>id' := ''A2''\<rparr>,
                  \<lparr>id' = ''N'', gatherer = gatherer_N, dependencies = Some [(''DevtoolsLog'', ''A2'')]\<rparr>])"
  by (simp add: resolveArtifactsToDefns_def resolve_artifact_def resolveArtifactDependencies_def
      ex_helpers_def gatherer_A_def gatherer_N_def defn_A_def Let_def decl_def)

section \<open>Claim about the cache\<close>

text \<open>
  Claim C9, on the cache as the spec describes it.  After any run of a cache
  (requests and completions in any order), \<open>computeFn\<close> has been executed at most
  once for every key, and exactly once for the key of every request made,
  whatever the number of requests with inputs of that fingerprint; all requests
  of a key were handed the same unit of work; and a result that the waiters of a
  key have received stays their result whatever follows.
\<close>

theorem cache_executes_once:
  "executions (fst (cache_run fp evs)) k \<le> 1
   \<and> (\<forall>kind inputs. Request kind inputs \<in> set evs \<longrightarrow>
         executions (fst (cache_run fp evs)) (kind, fp inputs) = 1)
   \<and> (\<forall>h h'. (k, h) \<in> set (snd (cache_run fp evs)) \<longrightarrow> (k, h') \<in> set (snd (cache_run fp evs))
         \<longrightarrow> h = h')
   \<and> (\<forall>r. observed (fst (cache_run fp evs)) k = Some r
         \<longrightarrow> observed (fst (cache_run fp (evs @ later))) k = Some r)"
proof -
  have inv: "cache_inv (cache_run fp evs)" by (rule cache_inv_run)
  have cnt: "executions (fst (cache_run fp evs)) k'
      = (if cache_entries (fst (cache_run fp evs)) k' = None then 0 else 1)" for k'
    using inv unfolding cache_inv_def counted_def by blast
  have once: "executions (fst (cache_run fp evs)) k \<le> 1"
    by (simp add: cnt)
  have exact: "executions (fst (cache_run fp evs)) (kind, fp inputs) = 1"
    if rq: "Request kind inputs \<in> set evs" for kind inputs
  proof -
    obtain h0 where "((kind, fp inputs), h0) \<in> set (snd (cache_run fp evs))"
      unfolding cache_run_def using requests_handed [OF rq] by fastforce
    then have "handle_at (fst (cache_run fp evs)) (kind, fp inputs) = Some h0"
      by (rule cache_inv_handed [OF inv])
    then have "cache_entries (fst (cache_run fp evs)) (kind, fp inputs) \<noteq> None"
      by (auto simp: handle_at_def)
    then show ?thesis by (simp add: cnt)
  qed
  have same: "h = h'"
    if "(k, h) \<in> set (snd (cache_run fp evs))" "(k, h') \<in> set (snd (cache_run fp evs))" for h h'
  proof -
    have "handle_at (fst (cache_run fp evs)) k = Some h"
      "handle_at (fst (cache_run fp evs)) k = Some h'"
      using cache_inv_handed [OF inv] that by blast+
    then show ?thesis by simp
  qed
  have stays: "observed (fst (cache_run fp (evs @ later))) k = Some r"
    if "observed (fst (cache_run fp evs)) k = Some r" for r
    using that unfolding cache_run_def foldl_append by (rule observed_foldl)
  show ?thesis using once exact same stays by blast
qed

theorem cache_executes_once_witness:
  "executions (fst (cache_run (\<lambda>i. i) ex_events)) (''Responsiveness'', 7) = 1
   \<and> snd (cache_run (\<lambda>i. i) ex_events)
       = [((''Responsiveness'', 7), 0), ((''ProcessedTrace'', 3), 1),
          ((''Responsiveness'', 7), 0), ((''Responsiveness'', 7), 0)]
   \<and> observed (fst (cache_run (\<lambda>i. i) ex_events)) (''Responsiveness'', 7) = Some 42
   \<and> observed (fst (cache_run (\<lambda>i. i) (ex_events @ [Finish (''Responsiveness'', 7) 0])))
        (''Responsiveness'', 7) = Some 42"
proof -
  have run: "snd (cache_run (\<lambda>i. i) ex_events)
       = [((''Responsiveness'', 7), 0), ((''ProcessedTrace'', 3), 1),
          ((''Responsiveness'', 7), 0), ((''Responsiveness'', 7), 0)]"
    and obs: "observed (fst (cache_run (\<lambda>i. i) ex_events)) (''Responsiveness'', 7) = Some 42"
    by (simp_all add: cache_run_def ex_events_def request_def complete_def empty_cache_def
        observed_def Let_def)
  have req: "Request ''Responsiveness'' 7 \<in> set ex_events" by (simp add: ex_events_def)
  show ?thesis
    using cache_executes_once [of "\<lambda>i. i" ex_events "(''Responsiveness'', 7)"
        "[Finish (''Responsiveness'', 7) 0]"] run obs req
    by auto
qed

end

